theory Spec2Isabelle
  imports Main
begin

section \<open>Data model\<close>

text \<open>
  The container tree of \<^verbatim>\<open>tiling_window_tree.cpp\<close>. A container is either a
  \<^verbatim>\<open>LeafContainer\<close> or a \<^verbatim>\<open>ParentContainer\<close> (a lane) that owns an ordered
  vector of children. The C++ code refers to containers through \<^verbatim>\<open>shared_ptr\<close>s and
  compares them by address; here every container carries an \<open>ident\<close> that stands for its
  address. The non-owning \<^verbatim>\<open>parent\<close> back-pointer is not stored: the parent of a
  container is the lane that holds it, found through the path from the root.
\<close>

datatype direction = up | left | down | right

datatype layout_scheme = horizontal | vertical | tabbing | stacking

record rectangle =
  top_left_x :: int
  top_left_y :: int
  size_width :: int
  size_height :: int

datatype container =
    LeafContainer (ident: nat) (logical_area: rectangle) (next_logical_area: "rectangle option")
  | ParentContainer (ident: nat) (get_direction: layout_scheme) (logical_area: rectangle)
      (next_logical_area: "rectangle option") (get_sub_nodes: "container list")

text \<open>\<^verbatim>\<open>Container::is_leaf\<close>, \<^verbatim>\<open>ParentContainer::num_nodes\<close>.\<close>

fun is_leaf :: "container \<Rightarrow> bool" where
  "is_leaf (LeafContainer i a n) = True"
| "is_leaf (ParentContainer i s a n cs) = False"

fun num_nodes :: "container \<Rightarrow> nat" where
  "num_nodes (LeafContainer i a n) = 0"
| "num_nodes (ParentContainer i s a n cs) = length cs"

text \<open>
  \<^verbatim>\<open>LeafContainer::get_logical_area\<close> returns the staged rectangle when there is one
  and the committed one otherwise; \<^verbatim>\<open>set_logical_area\<close> stages a rectangle;
  \<^verbatim>\<open>commit_changes\<close> makes a staged rectangle the committed one.

  Modelled from the spec: \<^verbatim>\<open>ParentContainer\<close>'s own \<^verbatim>\<open>get_logical_area\<close>,
  \<^verbatim>\<open>set_logical_area\<close> and \<^verbatim>\<open>commit_changes\<close> are not in the sources; the
  lane follows the same two-phase discipline (``\<^verbatim>\<open>set_logical_area\<close> stages a value;
  \<^verbatim>\<open>commit_changes\<close> applies it'').
\<close>

definition get_logical_area :: "container \<Rightarrow> rectangle" where
  "get_logical_area c =
     (case next_logical_area c of Some r \<Rightarrow> r | None \<Rightarrow> logical_area c)"

fun set_logical_area :: "rectangle \<Rightarrow> container \<Rightarrow> container" where
  "set_logical_area r (LeafContainer i a n) = LeafContainer i a (Some r)"
| "set_logical_area r (ParentContainer i s a n cs) = ParentContainer i s a (Some r) cs"

fun commit_changes :: "container \<Rightarrow> container" where
  "commit_changes (LeafContainer i a n) =
     (case n of Some r \<Rightarrow> LeafContainer i r None | None \<Rightarrow> LeafContainer i a None)"
| "commit_changes (ParentContainer i s a n cs) =
     (case n of Some r \<Rightarrow> ParentContainer i s r None cs | None \<Rightarrow> ParentContainer i s a None cs)"

subsection \<open>References into the tree\<close>

text \<open>
  A path is the list of child indices from the root lane down to a container. For the
  container at path \<open>p\<close>, \<^verbatim>\<open>get_parent().lock()\<close> is the container at \<open>butlast p\<close>
  (null for the root, whose path is empty) and \<^verbatim>\<open>parent->get_index_of_node(this)\<close> is
  \<open>last p\<close>.
\<close>

fun node_at :: "container \<Rightarrow> nat list \<Rightarrow> container option" where
  "node_at c [] = Some c"
| "node_at (LeafContainer i a n) (k # p) = None"
| "node_at (ParentContainer i s a n cs) (k # p) =
     (if k < length cs then node_at (cs ! k) p else None)"

fun find_path :: "container \<Rightarrow> nat \<Rightarrow> nat list option"
  and find_path_list :: "container list \<Rightarrow> nat \<Rightarrow> nat \<Rightarrow> nat list option" where
  "find_path (LeafContainer i a n) x = (if i = x then Some [] else None)"
| "find_path (ParentContainer i s a n cs) x =
     (if i = x then Some [] else find_path_list cs 0 x)"
| "find_path_list [] k x = None"
| "find_path_list (c # cs) k x =
     (case find_path c x of
        Some p \<Rightarrow> Some (k # p)
      | None \<Rightarrow> find_path_list cs (Suc k) x)"

fun idents :: "container \<Rightarrow> nat list" where
  "idents (LeafContainer i a n) = [i]"
| "idents (ParentContainer i s a n cs) = i # concat (map idents cs)"

section \<open>Directional select\<close>

text \<open>
  The three helpers of the anonymous namespace. The \<^verbatim>\<open>default\<close> branch of
  \<^verbatim>\<open>from_direction\<close> (an error in the log and the horizontal scheme) is not reached
  for any of the four directions.
\<close>

fun from_direction :: "direction \<Rightarrow> layout_scheme" where
  "from_direction up = vertical"
| "from_direction down = vertical"
| "from_direction right = horizontal"
| "from_direction left = horizontal"

definition is_negative_direction :: "direction \<Rightarrow> bool" where
  "is_negative_direction d = (d = left \<or> d = up)"

definition is_vertical_direction :: "direction \<Rightarrow> bool" where
  "is_vertical_direction d = (d = up \<or> d = down)"

text \<open>
  What a search for a leaf yields: a leaf (its \<open>ident\<close>), the null pointer, or a read
  outside the children vector (undefined behaviour in C++).
\<close>

datatype sel_result = out_of_bounds | nullptr | leaf nat

text \<open>
  One \<^verbatim>\<open>for\<close> loop of \<^verbatim>\<open>get_closest_window_to_select_from_node\<close> over the
  results of the recursive calls, in the order the loop visits the children: it returns at
  the first child that yields a leaf and goes on after a null result.
\<close>

fun first_found :: "sel_result list \<Rightarrow> sel_result" where
  "first_found [] = nullptr"
| "first_found (nullptr # rs) = first_found rs"
| "first_found (r # rs) = r"

text \<open>
  \<^verbatim>\<open>get_closest_window_to_select_from_node\<close>. The reverse loop runs
  \<^verbatim>\<open>for (auto i = sub_nodes.size() - 1; i != 0; i--)\<close> with an unsigned \<open>i\<close>: it
  visits the indices \<open>size - 1\<close> down to \<open>1\<close> and never index \<open>0\<close>; on an empty vector
  \<open>size() - 1\<close> wraps around and the first read \<^verbatim>\<open>sub_nodes[i]\<close> is out of bounds.
\<close>

fun get_closest_window_to_select_from_node :: "container \<Rightarrow> direction \<Rightarrow> sel_result" where
  "get_closest_window_to_select_from_node (LeafContainer i a n) d = leaf i"
| "get_closest_window_to_select_from_node (ParentContainer i s a n cs) d =
     (let is_vertical = is_vertical_direction d;
          is_negative = is_negative_direction d;
          rs = map (\<lambda>c. get_closest_window_to_select_from_node c d) cs;
          forward = first_found rs
      in if (is_vertical \<and> s = vertical \<or> \<not> is_vertical \<and> s = horizontal) \<and> is_negative
         then (if cs = [] then out_of_bounds
               else (case first_found (rev (tl rs)) of
                       nullptr \<Rightarrow> forward
                     | r \<Rightarrow> r))
         else forward)"

text \<open>
  The \<^verbatim>\<open>do ... while (parent != nullptr)\<close> loop of \<^verbatim>\<open>handle_select\<close>, with
  \<open>current_node\<close> the container at path \<open>p\<close> and \<open>parent\<close> the lane at \<open>butlast p\<close>.
  The loop is left when the parent of the root is reached (\<open>p = []\<close>).
\<close>

function select_loop :: "container \<Rightarrow> nat list \<Rightarrow> direction \<Rightarrow> sel_result" where
  "select_loop root p d =
     (if p = [] then nullptr
      else (case node_at root (butlast p) of
              Some (ParentContainer i grandparent_direction a n cs) \<Rightarrow>
                (let is_vertical = is_vertical_direction d;
                     is_negative = is_negative_direction d;
                     index = last p
                 in if is_vertical \<and> grandparent_direction = vertical
                       \<or> \<not> is_vertical \<and> (grandparent_direction = horizontal
                                            \<or> grandparent_direction = tabbing)
                    then (if is_negative
                          then (if index > 0
                                then get_closest_window_to_select_from_node (cs ! (index - 1)) d
                                else select_loop root (butlast p) d)
                          else (if int index < int (length cs) - 1
                                then get_closest_window_to_select_from_node (cs ! (index + 1)) d
                                else select_loop root (butlast p) d))
                    else select_loop root (butlast p) d)
            | _ \<Rightarrow> nullptr))"
  by pat_completeness auto
termination
  by (relation "measure (\<lambda>(root, p, d). length p)") auto


section \<open>The tree and its collaborators\<close>

text \<open>
  What the tree writes to the log and what it asks of the window controller, in the order
  it happens. \<open>commit_call i\<close> records a call of \<^verbatim>\<open>commit_changes\<close> on the container
  with ident \<open>i\<close>.
\<close>

datatype event =
    log_warning string
  | log_error string
  | select_active_window nat
  | commit_call nat

text \<open>
  The members of \<^verbatim>\<open>TilingWindowTree\<close> that the operations below read or write.
  \<open>active\<close> is \<^verbatim>\<open>state.active\<close> of the compositor state.
\<close>

record tiling_window_tree =
  root_lane :: container
  is_active_window_fullscreen :: bool
  active :: "container option"
  events :: "event list"

text \<open>
  The collaborators: the configuration values that are read, the work-area rectangles of
  \<^verbatim>\<open>tree_interface->get_zones()\<close>, and four things whose code is outside the sources
  and that are therefore taken as parameters: the minimum width and height that a
  \<^verbatim>\<open>ParentContainer\<close> reports, \<^verbatim>\<open>geom::Rectangle::contains\<close> of the Mir
  library, and the layout scheme that the constructor of \<^verbatim>\<open>ParentContainer\<close> gives a
  new lane.
\<close>

record environment =
  resize_jump :: int
  inner_gaps_x :: int
  inner_gaps_y :: int
  border_size :: int
  zones :: "rectangle list"
  lane_min_width :: "container \<Rightarrow> nat"
  lane_min_height :: "container \<Rightarrow> nat"
  contains :: "rectangle \<Rightarrow> int \<Rightarrow> int \<Rightarrow> bool"
  default_direction :: layout_scheme

definition add_event :: "event \<Rightarrow> tiling_window_tree \<Rightarrow> tiling_window_tree" where
  "add_event e t = t\<lparr>events := events t @ [e]\<rparr>"

text \<open>
  \<^verbatim>\<open>TilingWindowTree::handle_select\<close>: a container without a parent (the root, or a
  container that is not in the tree) is refused with a warning.
\<close>

definition handle_select ::
  "tiling_window_tree \<Rightarrow> nat \<Rightarrow> direction \<Rightarrow> sel_result \<times> tiling_window_tree" where
  "handle_select t from d =
     (case find_path (root_lane t) from of
        Some (k # p) \<Rightarrow> (select_loop (root_lane t) (k # p) d, t)
      | _ \<Rightarrow> (nullptr, add_event (log_warning ''Cannot handle_select the root node'') t))"

text \<open>
  \<^verbatim>\<open>TilingWindowTree::select_next\<close>. The result is \<open>None\<close> when the call runs into
  the out-of-bounds read.
\<close>

definition select_next ::
  "direction \<Rightarrow> nat \<Rightarrow> tiling_window_tree \<Rightarrow> (bool \<times> tiling_window_tree) option" where
  "select_next d c t =
     (if is_active_window_fullscreen t
      then Some (False, add_event (log_warning ''Unable to select the next window: fullscreened'') t)
      else (case handle_select t c d of
              (out_of_bounds, t1) \<Rightarrow> None
            | (nullptr, t1) \<Rightarrow>
                Some (False, add_event
                  (log_warning ''Unable to select the next window: handle_select failed'') t1)
            | (leaf w, t1) \<Rightarrow> Some (True, add_event (select_active_window w) t1)))"

section \<open>Resize\<close>

text \<open>
  \<^verbatim>\<open>LeafContainer::get_min_width\<close> and \<^verbatim>\<open>get_min_height\<close> return the
  \<^verbatim>\<open>size_t\<close> 50; a lane's minimum is a parameter.
\<close>

fun get_min_width :: "'a environment_scheme \<Rightarrow> container \<Rightarrow> nat" where
  "get_min_width env (LeafContainer i a n) = 50"
| "get_min_width env (ParentContainer i s a n cs) =
     lane_min_width env (ParentContainer i s a n cs)"

fun get_min_height :: "'a environment_scheme \<Rightarrow> container \<Rightarrow> nat" where
  "get_min_height env (LeafContainer i a n) = 50"
| "get_min_height env (ParentContainer i s a n cs) =
     lane_min_height env (ParentContainer i s a n cs)"

text \<open>
  The comparison \<^verbatim>\<open>other_rect.size.width.as_int() <= other_node->get_min_width()\<close>
  has an \<^verbatim>\<open>int\<close> on the left and a \<^verbatim>\<open>size_t\<close> on the right: the usual
  arithmetic conversions turn the \<^verbatim>\<open>int\<close> into a 64-bit unsigned value before
  comparing, so a negative extent becomes a value of at least \<open>2^63\<close>. \<open>as_size_t v\<close> is
  the value of that unsigned number.
\<close>

definition as_size_t :: "int \<Rightarrow> int" where
  "as_size_t v = v mod 2 ^ 64"

text \<open>
  The two staging loops of \<^verbatim>\<open>handle_resize\<close>, one per axis. \<open>pending\<close> is
  \<^verbatim>\<open>pending_node_resizes\<close>, \<open>total\<close> the running sum, and the list argument holds
  the nodes from index \<open>i\<close> on, where \<open>i = length pending\<close> (every earlier iteration
  pushed one rectangle). \<open>None\<close> is the early \<^verbatim>\<open>return\<close> after the warning.
  \<^verbatim>\<open>floor\<close> of a quotient of two \<^verbatim>\<open>int\<close>s computed in \<^verbatim>\<open>double\<close> is the
  integer floor division \<open>div\<close>. The sums and differences of \<^verbatim>\<open>int\<close> extents are
  taken in the integers: the extents of rectangles on a screen are far from \<open>2^31\<close>.
\<close>

fun stage_heights ::
  "'a environment_scheme \<Rightarrow> nat \<Rightarrow> int \<Rightarrow> int \<Rightarrow> container list \<Rightarrow> rectangle list \<Rightarrow> int
     \<Rightarrow> (rectangle list \<times> int) option" where
  "stage_heights env node resize_amount height_for_others [] pending total_height =
     Some (pending, total_height)"
| "stage_heights env node resize_amount height_for_others (other_node # rest) pending total_height =
     (let other_rect = get_logical_area other_node;
          other_rect = (if node = ident other_node
                        then other_rect\<lparr>size_height := size_height other_rect + resize_amount\<rparr>
                        else other_rect\<lparr>size_height := size_height other_rect + height_for_others\<rparr>);
          other_rect = (if length pending \<noteq> 0
                        then (let prev_rect = pending ! (length pending - 1)
                              in other_rect\<lparr>top_left_y := top_left_y prev_rect + size_height prev_rect\<rparr>)
                        else other_rect)
      in if as_size_t (size_height other_rect) \<le> int (get_min_height env other_node)
         then None
         else stage_heights env node resize_amount height_for_others rest
                (pending @ [other_rect]) (total_height + size_height other_rect))"

fun stage_widths ::
  "'a environment_scheme \<Rightarrow> nat \<Rightarrow> int \<Rightarrow> int \<Rightarrow> container list \<Rightarrow> rectangle list \<Rightarrow> int
     \<Rightarrow> (rectangle list \<times> int) option" where
  "stage_widths env node resize_amount width_for_others [] pending total_width =
     Some (pending, total_width)"
| "stage_widths env node resize_amount width_for_others (other_node # rest) pending total_width =
     (let other_rect = get_logical_area other_node;
          other_rect = (if node = ident other_node
                        then other_rect\<lparr>size_width := size_width other_rect + resize_amount\<rparr>
                        else other_rect\<lparr>size_width := size_width other_rect + width_for_others\<rparr>);
          other_rect = (if length pending \<noteq> 0
                        then (let prev_rect = pending ! (length pending - 1)
                              in other_rect\<lparr>top_left_x := top_left_x prev_rect + size_width prev_rect\<rparr>)
                        else other_rect)
      in if as_size_t (size_width other_rect) \<le> int (get_min_width env other_node)
         then None
         else stage_widths env node resize_amount width_for_others rest
                (pending @ [other_rect]) (total_width + size_width other_rect))"

text \<open>
  The whole staging phase: the loop of the axis, then the leftover folded into
  \<^verbatim>\<open>pending_node_resizes.back()\<close>. It is only run for a lane with at least two
  nodes, so \<open>nodes.size() - 1\<close> is at least one and \<open>back()\<close> exists.
\<close>

definition pending_node_resizes ::
  "'a environment_scheme \<Rightarrow> bool \<Rightarrow> nat \<Rightarrow> int \<Rightarrow> container \<Rightarrow> rectangle list option" where
  "pending_node_resizes env is_vertical node resize_amount parent =
     (let nodes = get_sub_nodes parent
      in if is_vertical
         then (let height_for_others = (- resize_amount) div (int (length nodes) - 1)
               in case stage_heights env node resize_amount height_for_others nodes [] 0 of
                    None \<Rightarrow> None
                  | Some (pending, total_height) \<Rightarrow>
                      (let leftover_height = size_height (get_logical_area parent) - total_height;
                           back = last pending
                       in Some (butlast pending
                            @ [back\<lparr>size_height := size_height back + leftover_height\<rparr>])))
         else (let width_for_others = (- resize_amount) div (int (length nodes) - 1)
               in case stage_widths env node resize_amount width_for_others nodes [] 0 of
                    None \<Rightarrow> None
                  | Some (pending, total_width) \<Rightarrow>
                      (let leftover_width = size_width (get_logical_area parent) - total_width;
                           back = last pending
                       in Some (butlast pending
                            @ [back\<lparr>size_width := size_width back + leftover_width\<rparr>]))))"

text \<open>A container of the tree replaced in place.\<close>

fun update_at :: "nat list \<Rightarrow> (container \<Rightarrow> container) \<Rightarrow> container \<Rightarrow> container" where
  "update_at [] f c = f c"
| "update_at (k # p) f (LeafContainer i a n) = LeafContainer i a n"
| "update_at (k # p) f (ParentContainer i s a n cs) =
     (if k < length cs
      then ParentContainer i s a n (cs[k := update_at p f (cs ! k)])
      else ParentContainer i s a n cs)"

text \<open>
  The final loop of \<^verbatim>\<open>handle_resize\<close>: every node of the lane gets its staged
  rectangle and is committed.
\<close>

fun apply_pending :: "rectangle list \<Rightarrow> container \<Rightarrow> container" where
  "apply_pending pending (ParentContainer i s a n cs) =
     ParentContainer i s a n
       (map (\<lambda>(node, r). commit_changes (set_logical_area r node)) (zip cs pending))"
| "apply_pending pending (LeafContainer i a n) = LeafContainer i a n"

text \<open>
  \<^verbatim>\<open>TilingWindowTree::handle_resize\<close> for the container \<open>node\<close> at path \<open>p\<close>. When the
  parent's axis does not match, the function calls itself on the parent.
\<close>

function handle_resize_at ::
  "'a environment_scheme \<Rightarrow> nat list \<Rightarrow> direction \<Rightarrow> int \<Rightarrow> tiling_window_tree
     \<Rightarrow> tiling_window_tree" where
  "handle_resize_at env p d amount t =
     (if p = [] then t
      else (case node_at (root_lane t) p of
              None \<Rightarrow> t
            | Some node \<Rightarrow>
      (case node_at (root_lane t) (butlast p) of
              Some (ParentContainer i s a n cs) \<Rightarrow>
                (let parent = ParentContainer i s a n cs;
                     is_vertical = (d = up \<or> d = down);
                     is_main_axis_movement = (is_vertical \<and> s = vertical
                                              \<or> \<not> is_vertical \<and> s = horizontal)
                 in if is_main_axis_movement \<and> length cs = 1 then t
                    else if \<not> is_main_axis_movement
                    then handle_resize_at env (butlast p) d amount t
                    else (let is_negative = (d = left \<or> d = up);
                              resize_amount = (if is_negative then - amount else amount)
                          in case pending_node_resizes env is_vertical (ident node)
                                    resize_amount parent of
                               None \<Rightarrow>
                                 add_event (log_warning
                                   ''Unable to resize a rectangle that would cause another to be negative'') t
                             | Some pending \<Rightarrow>
                                 t\<lparr>root_lane :=
                                      update_at (butlast p) (apply_pending pending) (root_lane t),
                                    events := events t @ map (\<lambda>c. commit_call (ident c)) cs\<rparr>))
            | _ \<Rightarrow> t)))"
  by pat_completeness auto
termination
  by (relation "measure (\<lambda>(env, p, d, amount, t). length p)") auto

definition handle_resize ::
  "'a environment_scheme \<Rightarrow> nat \<Rightarrow> direction \<Rightarrow> int \<Rightarrow> tiling_window_tree \<Rightarrow> tiling_window_tree" where
  "handle_resize env node d amount t =
     (case find_path (root_lane t) node of
        None \<Rightarrow> t
      | Some p \<Rightarrow> handle_resize_at env p d amount t)"

text \<open>\<^verbatim>\<open>TilingWindowTree::resize_container\<close>.\<close>

definition resize_container ::
  "'a environment_scheme \<Rightarrow> direction \<Rightarrow> nat \<Rightarrow> tiling_window_tree
     \<Rightarrow> bool \<times> tiling_window_tree" where
  "resize_container env d c t =
     (if is_active_window_fullscreen t
      then (False, add_event (log_warning ''Unable to resize the next window: fullscreened'') t)
      else (True, handle_resize env c d (resize_jump env) t))"


section \<open>Neighbours and the visible area\<close>

text \<open>
  \<^verbatim>\<open>has_neighbor\<close>, the helper of \<^verbatim>\<open>Container::get_neighbors\<close>, for the
  container at path \<open>p\<close>: it climbs with the same \<open>cannot_be_index\<close> at every level.
\<close>

function has_neighbor :: "container \<Rightarrow> nat list \<Rightarrow> layout_scheme \<Rightarrow> nat \<Rightarrow> bool" where
  "has_neighbor root p direction cannot_be_index =
     (if p = [] then False
      else (case node_at root (butlast p) of
              Some (ParentContainer i s a n cs) \<Rightarrow>
                (if s \<noteq> direction
                 then has_neighbor root (butlast p) direction cannot_be_index
                 else (length cs > 1 \<and> last p \<noteq> cannot_be_index)
                      \<or> has_neighbor root (butlast p) direction cannot_be_index)
            | _ \<Rightarrow> False))"
  by pat_completeness auto
termination
  by (relation "measure (\<lambda>(root, p, direction, cannot_be_index). length p)") auto

text \<open>
  The four wrappers. For the right and the bottom side the index that the container must
  not have is \<^verbatim>\<open>parent_container->num_nodes() - 1\<close> of the container's own parent.
\<close>

definition has_right_neighbor :: "container \<Rightarrow> nat list \<Rightarrow> bool" where
  "has_right_neighbor root p =
     (if p = [] then False
      else (case node_at root (butlast p) of
              Some (ParentContainer i s a n cs) \<Rightarrow> has_neighbor root p horizontal (length cs - 1)
            | _ \<Rightarrow> False))"

definition has_bottom_neighbor :: "container \<Rightarrow> nat list \<Rightarrow> bool" where
  "has_bottom_neighbor root p =
     (if p = [] then False
      else (case node_at root (butlast p) of
              Some (ParentContainer i s a n cs) \<Rightarrow> has_neighbor root p vertical (length cs - 1)
            | _ \<Rightarrow> False))"

definition has_left_neighbor :: "container \<Rightarrow> nat list \<Rightarrow> bool" where
  "has_left_neighbor root p = (if p = [] then False else has_neighbor root p horizontal 0)"

definition has_top_neighbor :: "container \<Rightarrow> nat list \<Rightarrow> bool" where
  "has_top_neighbor root p = (if p = [] then False else has_neighbor root p vertical 0)"

text \<open>
  \<^verbatim>\<open>Container::get_neighbors\<close> builds the array \<open>{top, left, bottom, right}\<close>, which
  \<^verbatim>\<open>get_visible_area\<close> reads at \<open>(int)Direction::left\<close> and so on. The declaration of
  \<^verbatim>\<open>Direction\<close> is not in the sources; the array is read here as a function of the
  direction, in the order \<open>up, left, down, right\<close> in which it is built.
\<close>

fun get_neighbors :: "container \<Rightarrow> nat list \<Rightarrow> direction \<Rightarrow> bool" where
  "get_neighbors root p up = has_top_neighbor root p"
| "get_neighbors root p left = has_left_neighbor root p"
| "get_neighbors root p down = has_bottom_neighbor root p"
| "get_neighbors root p right = has_right_neighbor root p"

text \<open>
  \<^verbatim>\<open>LeafContainer::get_visible_area\<close> for the leaf at path \<open>p\<close> with committed
  rectangle \<open>logical_area\<close>. \<^verbatim>\<open>(int)ceil((double)g / 2.0)\<close> is \<open>- ((- g) div 2)\<close>.
  A path that leads to no container stands for no leaf; the empty rectangle is returned
  for it.
\<close>

definition half_gap :: "int \<Rightarrow> int" where
  "half_gap g = - ((- g) div 2)"

definition get_visible_area :: "'a environment_scheme \<Rightarrow> container \<Rightarrow> nat list \<Rightarrow> rectangle" where
  "get_visible_area env root p =
     (case node_at root p of
        None \<Rightarrow> \<lparr>top_left_x = 0, top_left_y = 0, size_width = 0, size_height = 0\<rparr>
      | Some c \<Rightarrow>
     (let half_gap_x = half_gap (inner_gaps_x env);
          half_gap_y = half_gap (inner_gaps_y env);
          neighbors = get_neighbors root p;
          x = top_left_x (logical_area c);
          y = top_left_y (logical_area c);
          width = size_width (logical_area c);
          height = size_height (logical_area c);
          (x, width) = (if neighbors left then (x + half_gap_x, width - half_gap_x) else (x, width));
          width = (if neighbors right then width - half_gap_x else width);
          (y, height) = (if neighbors up then (y + half_gap_y, height - half_gap_y) else (y, height));
          height = (if neighbors down then height - half_gap_y else height);
          border_size = border_size env;
          x = x + border_size;
          width = width - 2 * border_size;
          y = y + border_size;
          height = height - 2 * border_size
      in \<lparr>top_left_x = x, top_left_y = y, size_width = width, size_height = height\<rparr>))"

text \<open>
  The sentence of the design document on neighbour detection, as a predicate of its own:
  some lane on the way from the root to the container has the axis of the direction, more
  than one child, and holds the container (or the ancestor of it that is its child) at an
  index that is not the extremity of \<^emph>\<open>that\<close> lane on the side asked for.
\<close>

definition sibling_on_side :: "container \<Rightarrow> nat list \<Rightarrow> direction \<Rightarrow> bool" where
  "sibling_on_side root p d =
     list_ex (\<lambda>k. case node_at root (take k p) of
                    Some (ParentContainer i s a n cs) \<Rightarrow>
                      s = from_direction d \<and> length cs > 1
                      \<and> (if is_negative_direction d then p ! k \<noteq> 0 else p ! k \<noteq> length cs - 1)
                  | _ \<Rightarrow> False)
       [0..<length p]"

section \<open>Structural changes\<close>

subsection \<open>The operations of the lane\<close>

text \<open>Lookup of a container by ident, and its parent lane.\<close>

definition node_of :: "container \<Rightarrow> nat \<Rightarrow> container option" where
  "node_of root x = (case find_path root x of None \<Rightarrow> None | Some p \<Rightarrow> node_at root p)"

definition get_parent :: "container \<Rightarrow> nat \<Rightarrow> container option" where
  "get_parent root x =
     (case find_path root x of
        Some (k # p) \<Rightarrow> node_at root (butlast (k # p))
      | _ \<Rightarrow> None)"

fun update_node :: "nat \<Rightarrow> (container \<Rightarrow> container) \<Rightarrow> container \<Rightarrow> container" where
  "update_node x f (LeafContainer i a n) =
     (if i = x then f (LeafContainer i a n) else LeafContainer i a n)"
| "update_node x f (ParentContainer i s a n cs) =
     (if i = x then f (ParentContainer i s a n cs)
      else ParentContainer i s a n (map (update_node x f) cs))"

text \<open>
  Modelled from the spec: \<^verbatim>\<open>ParentContainer::remove\<close> is not in the sources. The design
  document: ``\<^verbatim>\<open>remove(node)\<close>: detach a child [...]; \<^verbatim>\<open>remove\<close> triggers cascading
  removal of the lane itself if it becomes empty and is not the tree root'', and ``an
  internal (non-root) lane that reaches 0 children is removed from its own parent,
  recursively''. \<open>remove_child lane node root\<close> is the tree after \<^verbatim>\<open>lane->remove(node)\<close>: the
  child is taken out of the lane, and on the way back to the root every lane that has
  just lost its last child is taken out of its parent. The root is never taken out.
\<close>

definition became_empty :: "container \<Rightarrow> container \<Rightarrow> bool" where
  "became_empty before after = (\<not> is_leaf after \<and> num_nodes after = 0 \<and> num_nodes before \<noteq> 0)"

fun remove_child :: "nat \<Rightarrow> nat \<Rightarrow> container \<Rightarrow> container" where
  "remove_child lane node (LeafContainer i a n) = LeafContainer i a n"
| "remove_child lane node (ParentContainer i s a n cs) =
     (if i = lane
      then ParentContainer i s a n (filter (\<lambda>c. ident c \<noteq> node) cs)
      else ParentContainer i s a n
             (concat (map (\<lambda>c. if became_empty c (remove_child lane node c) then []
                                else [remove_child lane node c]) cs)))"

text \<open>
  Modelled from the spec: \<^verbatim>\<open>ParentContainer::graft_existing\<close>, \<^verbatim>\<open>swap_nodes\<close>,
  \<^verbatim>\<open>get_index_of_node\<close> and \<^verbatim>\<open>convert_to_parent\<close> are not in the sources. The
  design document: ``\<^verbatim>\<open>graft_existing(node, index)\<close>: insert a child at a given
  position'', ``\<^verbatim>\<open>swap_nodes(a,b)\<close>, \<^verbatim>\<open>get_index_of_node\<close> [...]: ordering
  primitives'', and ``\<^verbatim>\<open>convert_to_parent(child)\<close>: wraps the single target child in a
  brand-new intermediate lane so siblings are unaffected; returns the new lane''.
\<close>

fun graft_existing :: "nat \<Rightarrow> container \<Rightarrow> nat \<Rightarrow> container \<Rightarrow> container" where
  "graft_existing lane node index (LeafContainer i a n) = LeafContainer i a n"
| "graft_existing lane node index (ParentContainer i s a n cs) =
     (if i = lane
      then ParentContainer i s a n (take index cs @ [node] @ drop index cs)
      else ParentContainer i s a n (map (graft_existing lane node index) cs))"

fun get_index_of_node :: "container list \<Rightarrow> nat \<Rightarrow> nat option" where
  "get_index_of_node [] x = None"
| "get_index_of_node (c # cs) x =
     (if ident c = x then Some 0 else map_option Suc (get_index_of_node cs x))"

fun swap_children :: "nat \<Rightarrow> nat \<Rightarrow> container \<Rightarrow> container" where
  "swap_children x y (ParentContainer i s a n cs) =
     (case (get_index_of_node cs x, get_index_of_node cs y) of
        (Some j, Some k) \<Rightarrow> ParentContainer i s a n (cs[j := cs ! k, k := cs ! j])
      | _ \<Rightarrow> ParentContainer i s a n cs)"
| "swap_children x y (LeafContainer i a n) = LeafContainer i a n"

definition swap_nodes :: "nat \<Rightarrow> nat \<Rightarrow> nat \<Rightarrow> container \<Rightarrow> container" where
  "swap_nodes lane x y root = update_node lane (swap_children x y) root"

text \<open>The address of a newly allocated container: an ident that no container of the tree has.\<close>

definition fresh_ident :: "container \<Rightarrow> nat" where
  "fresh_ident root = Suc (foldr max (idents root) 0)"

fun wrap_child :: "layout_scheme \<Rightarrow> nat \<Rightarrow> nat \<Rightarrow> container \<Rightarrow> container" where
  "wrap_child s0 new x (ParentContainer i s a n cs) =
     ParentContainer i s a n
       (map (\<lambda>c. if ident c = x then ParentContainer new s0 (get_logical_area c) None [c] else c) cs)"
| "wrap_child s0 new x (LeafContainer i a n) = LeafContainer i a n"

definition convert_to_parent ::
  "'a environment_scheme \<Rightarrow> nat \<Rightarrow> nat \<Rightarrow> container \<Rightarrow> nat \<times> container" where
  "convert_to_parent env lane x root =
     (let new = fresh_ident root
      in (new, update_node lane (wrap_child (default_direction env) new x) root))"

fun set_direction :: "layout_scheme \<Rightarrow> container \<Rightarrow> container" where
  "set_direction s' (ParentContainer i s a n cs) = ParentContainer i s' a n cs"
| "set_direction s' (LeafContainer i a n) = LeafContainer i a n"

text \<open>\<^verbatim>\<open>c->commit_changes()\<close> for the container with ident \<open>x\<close>.\<close>

definition commit_node :: "nat \<Rightarrow> tiling_window_tree \<Rightarrow> tiling_window_tree" where
  "commit_node x t =
     t\<lparr>root_lane := update_node x commit_changes (root_lane t),
       events := events t @ [commit_call x]\<rparr>"

subsection \<open>Remove\<close>

text \<open>
  \<^verbatim>\<open>TilingWindowTree::handle_remove\<close>. The result is the ident of the lane to commit
  (\<open>None\<close> for the null pointer) and the tree after the call.
\<close>

definition handle_remove :: "nat \<Rightarrow> tiling_window_tree \<Rightarrow> nat option \<times> tiling_window_tree" where
  "handle_remove node t =
     (case get_parent (root_lane t) node of
        None \<Rightarrow> (None, t)
      | Some parent \<Rightarrow>
          (case get_parent (root_lane t) (ident parent) of
             Some grandparent \<Rightarrow>
               (if num_nodes parent = 1
                then (Some (ident grandparent),
                      t\<lparr>root_lane := remove_child (ident grandparent) (ident parent) (root_lane t)\<rparr>)
                else (Some (ident parent),
                      t\<lparr>root_lane := remove_child (ident parent) node (root_lane t)\<rparr>))
           | None \<Rightarrow> (Some (ident parent),
                      t\<lparr>root_lane := remove_child (ident parent) node (root_lane t)\<rparr>)))"

text \<open>A sequence of remove operations, one after the other.\<close>

fun handle_remove_all :: "nat list \<Rightarrow> tiling_window_tree \<Rightarrow> tiling_window_tree" where
  "handle_remove_all [] t = t"
| "handle_remove_all (node # nodes) t = handle_remove_all nodes (snd (handle_remove node t))"


subsection \<open>Move\<close>

text \<open>
  \<^verbatim>\<open>TilingWindowTree::recalculate_root_node_area\<close>: the root takes the extents of the
  first zone, if there is one, and is committed.
\<close>

definition recalculate_root_node_area ::
  "'a environment_scheme \<Rightarrow> tiling_window_tree \<Rightarrow> tiling_window_tree" where
  "recalculate_root_node_area env t =
     (case zones env of
        [] \<Rightarrow> t
      | zone # _ \<Rightarrow>
          t\<lparr>root_lane := commit_changes (set_logical_area zone (root_lane t)),
            events := events t @ [commit_call (ident (root_lane t))]\<rparr>)"

datatype traversal_type =
    traversal_type_invalid
  | traversal_type_insert
  | traversal_type_prepend
  | traversal_type_append

text \<open>
  \<^verbatim>\<open>TilingWindowTree::handle_move\<close>. The \<^verbatim>\<open>MoveResult\<close> is the pair of the
  traversal type and the ident of the node (\<open>None\<close> for null). The outer \<open>None\<close> is the
  out-of-bounds read of the select.
\<close>

definition handle_move ::
  "'a environment_scheme \<Rightarrow> nat \<Rightarrow> direction \<Rightarrow> tiling_window_tree
     \<Rightarrow> ((traversal_type \<times> nat option) \<times> tiling_window_tree) option" where
  "handle_move env from d t =
     (case handle_select t from d of
        (out_of_bounds, t1) \<Rightarrow> None
      | (leaf insert_node, t1) \<Rightarrow> Some ((traversal_type_insert, Some insert_node), t1)
      | (nullptr, t1) \<Rightarrow>
          (let parent = get_parent (root_lane t1) from;
               is_negative = is_negative_direction d
           in if map_option ident parent = Some (ident (root_lane t1))
              then (let new_layout_direction = from_direction d
                    in if new_layout_direction = get_direction (root_lane t1)
                       then Some ((traversal_type_invalid, None), t1)
                       else (let after_root_lane =
                                   ParentContainer (fresh_ident (root_lane t1)) (default_direction env)
                                     (get_logical_area (root_lane t1)) None [];
                                 after_root_lane = set_direction new_layout_direction after_root_lane;
                                 after_root_lane = graft_existing (ident after_root_lane)
                                                     (root_lane t1) 0 after_root_lane;
                                 t2 = recalculate_root_node_area env (t1\<lparr>root_lane := after_root_lane\<rparr>)
                             in if is_negative
                                then Some ((traversal_type_prepend, Some (ident (root_lane t2))), t2)
                                else Some ((traversal_type_append, Some (ident (root_lane t2))), t2)))
              else if is_negative
              then Some ((traversal_type_prepend, Some (ident (root_lane t1))), t1)
              else Some ((traversal_type_append, Some (ident (root_lane t1))), t1)))"

text \<open>
  \<^verbatim>\<open>TilingWindowTree::transfer_node\<close>: the node is removed, then grafted right after
  \<open>to\<close> in the lane that holds \<open>to\<close> after the removal. The result is the pair of lanes
  to commit and the tree.
\<close>

definition transfer_node ::
  "container \<Rightarrow> nat \<Rightarrow> tiling_window_tree \<Rightarrow> (nat option \<times> nat option) \<times> tiling_window_tree" where
  "transfer_node node to t =
     (case handle_remove (ident node) t of
        (to_update, t1) \<Rightarrow>
          (case get_parent (root_lane t1) to of
             None \<Rightarrow> ((None, to_update), t1)
           | Some target_parent \<Rightarrow>
               (case get_index_of_node (get_sub_nodes target_parent) to of
                  None \<Rightarrow> ((Some (ident target_parent), to_update), t1)
                | Some index \<Rightarrow>
                    ((Some (ident target_parent), to_update),
                     t1\<lparr>root_lane :=
                          graft_existing (ident target_parent) node (index + 1) (root_lane t1)\<rparr>))))"

definition commit_opt :: "nat option \<Rightarrow> tiling_window_tree \<Rightarrow> tiling_window_tree" where
  "commit_opt x t = (case x of None \<Rightarrow> t | Some i \<Rightarrow> commit_node i t)"

text \<open>
  \<^verbatim>\<open>TilingWindowTree::move_container\<close> for the container with ident \<open>c\<close>. The result
  is \<open>None\<close> when the call leaves what is modelled here: the out-of-bounds read of the
  select, or a container that no lane of this tree holds (the function is called by
  \<^verbatim>\<open>LeafContainer::move\<close> on a leaf of the tree).
\<close>

definition move_container ::
  "'a environment_scheme \<Rightarrow> direction \<Rightarrow> nat \<Rightarrow> tiling_window_tree
     \<Rightarrow> (bool \<times> tiling_window_tree) option" where
  "move_container env d c t =
     (if is_active_window_fullscreen t
      then Some (False, add_event (log_warning ''Unable to move active window: fullscreen'') t)
      else (case handle_move env c d t of
              None \<Rightarrow> None
            | Some ((traversal_type_insert, None), t1) \<Rightarrow>
                Some (False, add_event
                  (log_warning ''Unable to move active window: target_window not found'') t1)
            | Some ((traversal_type_insert, Some target_node), t1) \<Rightarrow>
                (case get_parent (root_lane t1) target_node of
                   None \<Rightarrow>
                     Some (False, add_event (log_warning
                       ''Unable to move active window: second_window has no second_parent'') t1)
                 | Some target_parent \<Rightarrow>
                     (case (get_parent (root_lane t1) c, node_of (root_lane t1) c) of
                        (Some active_parent, Some moving_node) \<Rightarrow>
                          (if ident active_parent = ident target_parent
                           then Some (True, commit_node (ident active_parent)
                                  (t1\<lparr>root_lane := swap_nodes (ident active_parent) c target_node
                                                       (root_lane t1)\<rparr>))
                           else (case transfer_node moving_node target_node t1 of
                                   ((first, second), t2) \<Rightarrow>
                                     Some (True, commit_opt second (commit_opt first t2))))
                      | _ \<Rightarrow> None))
            | Some ((traversal_type_append, lane), t1) \<Rightarrow>
                (case (lane, node_of (root_lane t1) c) of
                   (Some lane_node, Some moving_node) \<Rightarrow>
                     (case handle_remove c t1 of
                        (_, t2) \<Rightarrow>
                          (case node_of (root_lane t2) lane_node of
                             None \<Rightarrow> None
                           | Some l \<Rightarrow>
                               Some (True, commit_node lane_node
                                 (t2\<lparr>root_lane := graft_existing lane_node moving_node (num_nodes l)
                                                      (root_lane t2)\<rparr>))))
                 | _ \<Rightarrow> None)
            | Some ((traversal_type_prepend, lane), t1) \<Rightarrow>
                (case (lane, node_of (root_lane t1) c) of
                   (Some lane_node, Some moving_node) \<Rightarrow>
                     (case handle_remove c t1 of
                        (_, t2) \<Rightarrow>
                          Some (True, commit_node lane_node
                            (t2\<lparr>root_lane := graft_existing lane_node moving_node 0
                                                 (root_lane t2)\<rparr>)))
                 | _ \<Rightarrow> None)
            | Some ((traversal_type_invalid, _), t1) \<Rightarrow>
                Some (False, add_event (log_error ''Unable to move window'') t1)))"

subsection \<open>Layout scheme\<close>

text \<open>\<^verbatim>\<open>TilingWindowTree::handle_layout_scheme\<close>.\<close>

definition handle_layout_scheme ::
  "'a environment_scheme \<Rightarrow> layout_scheme \<Rightarrow> nat \<Rightarrow> tiling_window_tree \<Rightarrow> tiling_window_tree" where
  "handle_layout_scheme env scheme c t =
     (if is_active_window_fullscreen t
      then add_event (log_warning ''Unable to handle direction request: fullscreen'') t
      else (case get_parent (root_lane t) c of
              None \<Rightarrow> add_event (log_warning ''handle_layout_scheme: parent is not set'') t
            | Some parent \<Rightarrow>
                (if num_nodes parent > 1 \<and> get_direction parent \<noteq> tabbing
                 then (case convert_to_parent env (ident parent) c (root_lane t) of
                         (new_parent, root') \<Rightarrow>
                           t\<lparr>root_lane := update_node new_parent (set_direction scheme) root'\<rparr>)
                 else t\<lparr>root_lane := update_node (ident parent) (set_direction scheme)
                                       (root_lane t)\<rparr>)))"

section \<open>Selecting a window from a point\<close>

text \<open>
  \<^verbatim>\<open>foreach_node_internal\<close>: the first container, parents before children and
  children in order, for which \<open>f\<close> holds.
\<close>

fun first_some :: "'a option list \<Rightarrow> 'a option" where
  "first_some [] = None"
| "first_some (None # rs) = first_some rs"
| "first_some (Some r # rs) = Some r"

fun foreach_node_internal :: "(container \<Rightarrow> bool) \<Rightarrow> container \<Rightarrow> container option" where
  "foreach_node_internal f (LeafContainer i a n) =
     (if f (LeafContainer i a n) then Some (LeafContainer i a n) else None)"
| "foreach_node_internal f (ParentContainer i s a n cs) =
     (if f (ParentContainer i s a n cs) then Some (ParentContainer i s a n cs)
      else first_some (map (foreach_node_internal f) cs))"

text \<open>
  Modelled from the spec: \<^verbatim>\<open>ParentContainer::find_where\<close> is not in the sources; it is
  taken to search the lane and everything below it the way \<^verbatim>\<open>foreach_node_internal\<close>
  does.
\<close>

definition find_where :: "(container \<Rightarrow> bool) \<Rightarrow> container \<Rightarrow> container option" where
  "find_where f root = foreach_node_internal f root"

text \<open>\<^verbatim>\<open>Container::as_leaf\<close> (a dynamic cast) and \<^verbatim>\<open>active_container\<close>.\<close>

fun as_leaf :: "container option \<Rightarrow> container option" where
  "as_leaf None = None"
| "as_leaf (Some (LeafContainer i a n)) = Some (LeafContainer i a n)"
| "as_leaf (Some (ParentContainer i s a n cs)) = None"

definition active_container :: "tiling_window_tree \<Rightarrow> container option" where
  "active_container t = as_leaf (active t)"

text \<open>\<^verbatim>\<open>TilingWindowTree::select_window_from_point\<close>.\<close>

definition select_window_from_point ::
  "'a environment_scheme \<Rightarrow> int \<Rightarrow> int \<Rightarrow> tiling_window_tree \<Rightarrow> container option" where
  "select_window_from_point env x y t =
     (if is_active_window_fullscreen t
      then active_container t
      else as_leaf (find_where
             (\<lambda>node. is_leaf node \<and> contains env (get_logical_area node) x y) (root_lane t)))"


text \<open>All containers of a tree, parents before children and children in order.\<close>

fun containers :: "container \<Rightarrow> container list" where
  "containers (LeafContainer i a n) = [LeafContainer i a n]"
| "containers (ParentContainer i s a n cs) =
     ParentContainer i s a n cs # concat (map containers cs)"

section \<open>The design document's account of the select\<close>

text \<open>
  The directional select in the words of the design document, for comparison with the loop
  above. An axis matches when a vertical direction meets the vertical scheme, or a
  horizontal direction meets the horizontal or the tabbing scheme. The adjacent index is
  \<open>index - 1\<close> for left and up and \<open>index + 1\<close> for right and down.
\<close>

definition axis_matches :: "layout_scheme \<Rightarrow> direction \<Rightarrow> bool" where
  "axis_matches s d =
     (if is_vertical_direction d then s = vertical else s = horizontal \<or> s = tabbing)"

definition adjacent_index :: "direction \<Rightarrow> nat \<Rightarrow> nat" where
  "adjacent_index d index = (if is_negative_direction d then index - 1 else index + 1)"

text \<open>
  \<open>can_step root d q\<close>: the parent of the container at \<open>q\<close> matches the axis of \<open>d\<close> and
  the container is not at the extremity that the sign of \<open>d\<close> points to.
\<close>

definition can_step :: "container \<Rightarrow> direction \<Rightarrow> nat list \<Rightarrow> bool" where
  "can_step root d q =
     (case node_at root (butlast q) of
        Some (ParentContainer i s a n cs) \<Rightarrow>
          axis_matches s d
          \<and> (if is_negative_direction d then last q \<noteq> 0 else last q \<noteq> length cs - 1)
      | _ \<Rightarrow> False)"

text \<open>The container at \<open>p\<close> and its ancestors below the root, nearest first.\<close>

definition ancestor_chain :: "nat list \<Rightarrow> nat list list" where
  "ancestor_chain p = map (\<lambda>k. take k p) (rev [1..<Suc (length p)])"

text \<open>
  Climb to the first container of the chain that can step, go to its adjacent sibling and
  descend there; nothing when no container of the chain can step.
\<close>

definition select_by_spec :: "container \<Rightarrow> nat list \<Rightarrow> direction \<Rightarrow> sel_result" where
  "select_by_spec root p d =
     (case find (can_step root d) (ancestor_chain p) of
        None \<Rightarrow> nullptr
      | Some q \<Rightarrow>
          (case node_at root (butlast q @ [adjacent_index d (last q)]) of
             Some sibling \<Rightarrow> get_closest_window_to_select_from_node sibling d
           | None \<Rightarrow> nullptr))"

text \<open>The condition under which one round of the loop returns, for index \<open>k\<close> of \<open>n\<close>.\<close>

definition steps_within :: "layout_scheme \<Rightarrow> direction \<Rightarrow> nat \<Rightarrow> nat \<Rightarrow> bool" where
  "steps_within s d k n =
     (axis_matches s d \<and> (if is_negative_direction d then 0 < k else k + 1 < n))"

fun opposite :: "direction \<Rightarrow> direction" where
  "opposite up = down"
| "opposite down = up"
| "opposite left = right"
| "opposite right = left"

section \<open>The invariant of the lanes\<close>

text \<open>
  \<open>lanes_nonempty c\<close>: \<open>c\<close> and every lane below it has at least one child.
  \<open>no_empty_internal_lane root\<close>: no lane other than the root has zero children.
\<close>

fun lanes_nonempty :: "container \<Rightarrow> bool" where
  "lanes_nonempty (LeafContainer i a n) = True"
| "lanes_nonempty (ParentContainer i s a n cs) = (cs \<noteq> [] \<and> list_all lanes_nonempty cs)"

definition no_empty_internal_lane :: "container \<Rightarrow> bool" where
  "no_empty_internal_lane root = list_all lanes_nonempty (get_sub_nodes root)"

text \<open>The extent of a rectangle along the axis of a resize.\<close>

definition extent :: "bool \<Rightarrow> rectangle \<Rightarrow> int" where
  "extent is_vertical r = (if is_vertical then size_height r else size_width r)"

section \<open>The tree after a removal\<close>

text \<open>
  The outcome of a removal, stated on the path of the removed child rather than on
  idents. \<open>drop_child k\<close> takes the \<open>k\<close>-th child out of a lane and leaves everything else
  of the lane as it is; \<open>update_at q (drop_child k) root\<close> is then the tree in which exactly
  the child \<open>k\<close> of the lane at path \<open>q\<close> is gone.
\<close>

fun drop_child :: "nat \<Rightarrow> container \<Rightarrow> container" where
  "drop_child k (ParentContainer i s a n cs) = ParentContainer i s a n (take k cs @ drop (Suc k) cs)"
| "drop_child k (LeafContainer i a n) = LeafContainer i a n"

text \<open>
  \<open>erase_cascading p root\<close>: the container at path \<open>p\<close> is taken out of its lane; a lane
  below the root that has just lost its last child in this way is taken out of its own
  lane in turn, and so on towards the root (the cascade of the design document's
  \<^verbatim>\<open>remove\<close>). The root itself always stays.
\<close>

fun erase_cascading :: "nat list \<Rightarrow> container \<Rightarrow> container" where
  "erase_cascading [] c = c"
| "erase_cascading (k # p) (LeafContainer i a n) = LeafContainer i a n"
| "erase_cascading (k # p) (ParentContainer i s a n cs) =
     (if p = [] then ParentContainer i s a n (take k cs @ drop (Suc k) cs)
      else if k < length cs
      then (if became_empty (cs ! k) (erase_cascading p (cs ! k))
            then ParentContainer i s a n (take k cs @ drop (Suc k) cs)
            else ParentContainer i s a n (cs[k := erase_cascading p (cs ! k)]))
      else ParentContainer i s a n cs)"

section \<open>The design document's account of the descent\<close>






section \<open>The outcome of a move at the root\<close>

text \<open>
  Names for the parts of the tree that a move at the root leaves behind. The new root has
  the extents of the first zone (or, without a zone, the logical area of the old root);
  the old root stays below it without the moved container, unless nothing remains in it.
\<close>

definition wrapped_area :: "'a environment_scheme \<Rightarrow> container \<Rightarrow> rectangle" where
  "wrapped_area env root = (case zones env of [] \<Rightarrow> get_logical_area root | zone # _ \<Rightarrow> zone)"

definition wrapped_events :: "'a environment_scheme \<Rightarrow> container \<Rightarrow> event list" where
  "wrapped_events env root =
     (case zones env of [] \<Rightarrow> [] | zone # _ \<Rightarrow> [commit_call (fresh_ident root)])"

definition remaining_root :: "nat \<Rightarrow> container \<Rightarrow> container list" where
  "remaining_root c root =
     (if filter (\<lambda>x. ident x \<noteq> c) (get_sub_nodes root) = [] then []
      else [ParentContainer (ident root) (get_direction root) (logical_area root)
              (next_logical_area root) (filter (\<lambda>x. ident x \<noteq> c) (get_sub_nodes root))])"

section \<open>Concrete trees\<close>

definition rect :: "int \<Rightarrow> int \<Rightarrow> int \<Rightarrow> int \<Rightarrow> rectangle" where
  "rect x y w h = \<lparr>top_left_x = x, top_left_y = y, size_width = w, size_height = h\<rparr>"

definition example_env :: environment where
  "example_env =
     \<lparr>resize_jump = 100, inner_gaps_x = 10, inner_gaps_y = 10, border_size = 2,
      zones = [rect 0 0 920 600],
      lane_min_width = (\<lambda>c. 50), lane_min_height = (\<lambda>c. 50),
      contains = (\<lambda>r x y. top_left_x r \<le> x \<and> x < top_left_x r + size_width r
                          \<and> top_left_y r \<le> y \<and> y < top_left_y r + size_height r),
      default_direction = horizontal\<rparr>"

text \<open>A horizontal root, 920 wide, with a leaf of width 60 and a leaf of width 860.\<close>

definition narrow_root :: container where
  "narrow_root =
     ParentContainer 0 horizontal (rect 0 0 920 600) None
       [LeafContainer 1 (rect 0 0 60 600) None, LeafContainer 2 (rect 60 0 860 600) None]"

definition narrow_tree :: tiling_window_tree where
  "narrow_tree =
     \<lparr>root_lane = narrow_root, is_active_window_fullscreen = False, active = None, events = []\<rparr>"

definition fullscreen_tree :: tiling_window_tree where
  "fullscreen_tree =
     \<lparr>root_lane = narrow_root, is_active_window_fullscreen = True,
      active = Some (LeafContainer 1 (rect 0 0 60 600) None), events = []\<rparr>"

text \<open>
  A horizontal root with a leaf and a vertical lane of three leaves:
  \<open>H0 [A1, V2 [B3, C4, D5]]\<close>.
\<close>

definition nested_root :: container where
  "nested_root =
     ParentContainer 0 horizontal (rect 0 0 920 600) None
       [LeafContainer 1 (rect 0 0 460 600) None,
        ParentContainer 2 vertical (rect 460 0 460 600) None
          [LeafContainer 3 (rect 460 0 460 200) None,
           LeafContainer 4 (rect 460 200 460 200) None,
           LeafContainer 5 (rect 460 400 460 200) None]]"

definition nested_tree :: tiling_window_tree where
  "nested_tree =
     \<lparr>root_lane = nested_root, is_active_window_fullscreen = False, active = None, events = []\<rparr>"

text \<open>
  A chain of lanes with one child each below the root: \<open>H0 [A1, V2 [H3 [B4]]]\<close>.
\<close>

definition chain_root :: container where
  "chain_root =
     ParentContainer 0 horizontal (rect 0 0 920 600) None
       [LeafContainer 1 (rect 0 0 460 600) None,
        ParentContainer 2 vertical (rect 460 0 460 600) None
          [ParentContainer 3 horizontal (rect 460 0 460 600) None
             [LeafContainer 4 (rect 460 0 460 600) None]]]"

definition chain_tree :: tiling_window_tree where
  "chain_tree =
     \<lparr>root_lane = chain_root, is_active_window_fullscreen = False, active = None, events = []\<rparr>"

text \<open>A root with one leaf that fills it, once horizontal and once vertical.\<close>

definition single_root :: container where
  "single_root =
     ParentContainer 0 horizontal (rect 0 0 920 600) None
       [LeafContainer 1 (rect 0 0 920 600) None]"

definition single_tree :: tiling_window_tree where
  "single_tree =
     \<lparr>root_lane = single_root, is_active_window_fullscreen = False, active = None, events = []\<rparr>"

definition single_vertical_root :: container where
  "single_vertical_root =
     ParentContainer 0 vertical (rect 0 0 920 600) None
       [LeafContainer 1 (rect 0 0 920 600) None]"

definition single_vertical_tree :: tiling_window_tree where
  "single_vertical_tree =
     \<lparr>root_lane = single_vertical_root, is_active_window_fullscreen = False, active = None,
      events = []\<rparr>"



text \<open>
  A horizontal root with a leaf and a vertical lane that holds one leaf:
  \<open>H0[A1, V2[B3]]\<close>.
\<close>

definition pair_root :: container where
  "pair_root =
     ParentContainer 0 horizontal (rect 0 0 920 600) None
       [LeafContainer 1 (rect 0 0 460 600) None,
        ParentContainer 2 vertical (rect 460 0 460 600) None
          [LeafContainer 3 (rect 460 0 460 600) None]]"

definition pair_tree :: tiling_window_tree where
  "pair_tree =
     \<lparr>root_lane = pair_root, is_active_window_fullscreen = False, active = None, events = []\<rparr>"

section \<open>Properties\<close>

declare select_loop.simps [simp del]
declare handle_resize_at.simps [simp del]
declare has_neighbor.simps [simp del]

subsection \<open>The reverse scan of the descent\<close>



















subsection \<open>The fullscreen guard\<close>

text \<open>
  Claim C6. While the fullscreen flag of the tree is set, \<^verbatim>\<open>resize_container\<close>,
  \<^verbatim>\<open>select_next\<close> and \<^verbatim>\<open>move_container\<close> return false and
  \<^verbatim>\<open>handle_layout_scheme\<close> returns, each leaving the tree as it was except for one
  warning added to the log; each of them returns normally.
\<close>

theorem fullscreen_guards:
  assumes "is_active_window_fullscreen t"
  shows "resize_container env d c t =
           (False, t\<lparr>events := events t @
              [log_warning ''Unable to resize the next window: fullscreened'']\<rparr>)
       \<and> select_next d c t =
           Some (False, t\<lparr>events := events t @
              [log_warning ''Unable to select the next window: fullscreened'']\<rparr>)
       \<and> move_container env d c t =
           Some (False, t\<lparr>events := events t @
              [log_warning ''Unable to move active window: fullscreen'']\<rparr>)
       \<and> handle_layout_scheme env s c t =
           t\<lparr>events := events t @
              [log_warning ''Unable to handle direction request: fullscreen'']\<rparr>"
  using assms
  by (simp add: resize_container_def select_next_def move_container_def
      handle_layout_scheme_def add_event_def)

theorem fullscreen_guards_witness:
  "is_active_window_fullscreen fullscreen_tree
   \<and> fst (resize_container example_env left 1 fullscreen_tree) = False
   \<and> root_lane (snd (resize_container example_env left 1 fullscreen_tree)) = narrow_root
   \<and> map_option fst (select_next left 2 fullscreen_tree) = Some False
   \<and> map_option (root_lane \<circ> snd) (select_next left 2 fullscreen_tree) = Some narrow_root
   \<and> map_option fst (move_container example_env right 1 fullscreen_tree) = Some False
   \<and> map_option (root_lane \<circ> snd) (move_container example_env right 1 fullscreen_tree)
       = Some narrow_root
   \<and> root_lane (handle_layout_scheme example_env vertical 1 fullscreen_tree) = narrow_root"
  using fullscreen_guards [of fullscreen_tree example_env left 1 vertical]
    fullscreen_guards [of fullscreen_tree example_env left 2 vertical]
    fullscreen_guards [of fullscreen_tree example_env right 1 vertical]
  by (simp add: fullscreen_tree_def)

subsection \<open>Selecting a window from a point\<close>

lemma find_append_case:
  "find P (xs @ ys) = (case find P xs of None \<Rightarrow> find P ys | Some x \<Rightarrow> Some x)"
  by (induction xs) auto

lemma first_some_map_find:
  "(\<And>c. c \<in> set cs \<Longrightarrow> g c = find P (containers c))
     \<Longrightarrow> first_some (map g cs) = find P (concat (map containers cs))"
proof (induction cs)
  case Nil
  then show ?case by simp
next
  case (Cons c cs)
  then show ?case
    by (cases "find P (containers c)") (simp_all add: find_append_case)
qed

lemma foreach_node_internal_find:
  "foreach_node_internal f c = find f (containers c)"
proof (induction c)
  case (LeafContainer i a n)
  then show ?case by simp
next
  case (ParentContainer i s a n cs)
  then show ?case by (simp add: first_some_map_find)
qed

lemma as_leaf_find_leaf:
  "as_leaf (find (\<lambda>node. is_leaf node \<and> P node) xs) = find (\<lambda>node. is_leaf node \<and> P node) xs"
proof (cases "find (\<lambda>node. is_leaf node \<and> P node) xs")
  case None
  then show ?thesis by simp
next
  case (Some c)
  then have "is_leaf c" by (auto simp: find_Some_iff)
  with Some show ?thesis by (cases c) simp_all
qed

text \<open>
  Claim C10. While the fullscreen flag is set, \<^verbatim>\<open>select_window_from_point\<close> returns
  the active container whatever the coordinates are. Only when the flag is clear does it
  search the tree: it returns the first leaf, in the order of the traversal, whose logical
  area contains the point, and nothing when no leaf does.
\<close>

theorem select_window_from_point_fullscreen:
  "(is_active_window_fullscreen t \<longrightarrow>
      select_window_from_point env x y t = active_container t)
   \<and> (\<not> is_active_window_fullscreen t \<longrightarrow>
      select_window_from_point env x y t =
        find (\<lambda>node. is_leaf node \<and> contains env (get_logical_area node) x y)
          (containers (root_lane t)))"
  by (simp add: select_window_from_point_def find_where_def foreach_node_internal_find
      as_leaf_find_leaf)

theorem select_window_from_point_fullscreen_witness:
  "is_active_window_fullscreen fullscreen_tree
   \<and> select_window_from_point example_env 500 10 fullscreen_tree
       = Some (LeafContainer 1 (rect 0 0 60 600) None)
   \<and> select_window_from_point example_env 5000 10 fullscreen_tree
       = Some (LeafContainer 1 (rect 0 0 60 600) None)
   \<and> \<not> is_active_window_fullscreen narrow_tree
   \<and> select_window_from_point example_env 500 10 narrow_tree
       = Some (LeafContainer 2 (rect 60 0 860 600) None)
   \<and> select_window_from_point example_env 5000 10 narrow_tree = None"
  using select_window_from_point_fullscreen [of fullscreen_tree example_env 500 10]
    select_window_from_point_fullscreen [of fullscreen_tree example_env 5000 10]
    select_window_from_point_fullscreen [of narrow_tree example_env 500 10]
    select_window_from_point_fullscreen [of narrow_tree example_env 5000 10]
  by (simp add: fullscreen_tree_def narrow_tree_def narrow_root_def example_env_def rect_def
      active_container_def get_logical_area_def)

subsection \<open>Directional select\<close>

lemma node_at_append:
  "node_at root (p @ q) = (case node_at root p of None \<Rightarrow> None | Some c \<Rightarrow> node_at c q)"
  by (induction root p rule: node_at.induct) auto

lemma node_at_snoc_Some:
  assumes "node_at root (p @ [k]) = Some c"
  shows "\<exists>i s a n cs. node_at root p = Some (ParentContainer i s a n cs) \<and> k < length cs \<and> cs ! k = c"
proof (cases "node_at root p")
  case None
  with assms show ?thesis by (simp add: node_at_append)
next
  case (Some c')
  with assms show ?thesis
    by (cases c') (auto simp: node_at_append split: if_splits)
qed

lemma ancestor_chain_Nil: "ancestor_chain [] = []"
  by (simp add: ancestor_chain_def)

lemma ancestor_chain_snoc: "ancestor_chain (q @ [k]) = (q @ [k]) # ancestor_chain q"
  by (auto simp: ancestor_chain_def)

lemma select_loop_by_spec:
  "node_at root p = Some c \<Longrightarrow> select_loop root p d = select_by_spec root p d"
proof (induction p arbitrary: c rule: rev_induct)
  case Nil
  show ?case
    by (simp add: select_loop.simps [of root "[]"] select_by_spec_def ancestor_chain_Nil)
next
  case (snoc k q)
  obtain i s a n cs where par: "node_at root q = Some (ParentContainer i s a n cs)"
    and k: "k < length cs"
    using node_at_snoc_Some [OF snoc.prems] by blast
  have ih: "select_loop root q d = select_by_spec root q d"
    using snoc.IH [OF par] .
  show ?case
  proof (cases "can_step root d (q @ [k])")
    case True
    with par k show ?thesis
      by (auto simp: select_loop.simps [of root "q @ [k]"] select_by_spec_def ancestor_chain_snoc
          can_step_def axis_matches_def adjacent_index_def node_at_append Let_def
          split: if_splits)
  next
    case False
    have "select_loop root (q @ [k]) d = select_loop root q d"
      using False par k
      by (auto simp: select_loop.simps [of root "q @ [k]"] can_step_def axis_matches_def Let_def
          split: if_splits)
    moreover have "select_by_spec root (q @ [k]) d = select_by_spec root q d"
      using False by (simp add: select_by_spec_def ancestor_chain_snoc)
    ultimately show ?thesis using ih by simp
  qed
qed

lemma find_path_node_at:
  "find_path c x = Some p \<Longrightarrow> \<exists>c'. node_at c p = Some c' \<and> ident c' = x"
  and find_path_list_node_at:
  "find_path_list cs k x = Some p \<Longrightarrow>
     \<exists>j q c'. p = (k + j) # q \<and> j < length cs \<and> node_at (cs ! j) q = Some c' \<and> ident c' = x"
proof (induction c x and cs k x arbitrary: p and p rule: find_path_find_path_list.induct)
  case (1 i a n x)
  then show ?case by (auto split: if_splits)
next
  case (2 i s a n cs x)
  show ?case
  proof (cases "i = x")
    case True
    with 2 show ?thesis by auto
  next
    case False
    with 2 obtain j q c' where "p = (0 + j) # q" "j < length cs"
      "node_at (cs ! j) q = Some c'" "ident c' = x"
      by fastforce
    then show ?thesis by auto
  qed
next
  case (3 k x)
  then show ?case by simp
next
  case (4 c cs k x)
  show ?case
  proof (cases "find_path c x")
    case None
    with 4 obtain j q c' where "p = (Suc k + j) # q" "j < length cs"
      "node_at (cs ! j) q = Some c'" "ident c' = x"
      by fastforce
    then show ?thesis
      by (intro exI [of _ "Suc j"] exI [of _ q] exI [of _ c']) simp
  next
    case (Some q)
    with 4 obtain c' where "node_at c q = Some c'" "ident c' = x" "p = k # q"
      by fastforce
    then show ?thesis
      by (intro exI [of _ 0] exI [of _ q] exI [of _ c']) simp
  qed
qed

text \<open>
  Claim C3. For a container of the tree that has a parent, \<^verbatim>\<open>handle_select\<close> climbs
  the chain of ancestors: it returns the descent into the adjacent sibling (index - 1 for
  left and up, index + 1 for right and down) of the first container on the chain whose
  parent matches the axis of the direction and that is not at the extremity on that side;
  when no container of the chain qualifies by the time the root is passed, it returns
  nothing. The tree is left as it is.
\<close>

theorem handle_select_climbs:
  assumes "find_path (root_lane t) from = Some p" and "p \<noteq> []"
  shows "handle_select t from d = (select_by_spec (root_lane t) p d, t)"
proof -
  obtain c where "node_at (root_lane t) p = Some c"
    using find_path_node_at [OF assms(1)] by blast
  then have "select_loop (root_lane t) p d = select_by_spec (root_lane t) p d"
    by (rule select_loop_by_spec)
  with assms show ?thesis
    by (cases p) (simp_all add: handle_select_def)
qed


theorem handle_select_climbs_witness:
  "find_path (root_lane nested_tree) 4 = Some [1, 1] \<and> [1, 1] \<noteq> ([] :: nat list)
   \<and> handle_select nested_tree 4 left = (leaf 1, nested_tree)
   \<and> select_by_spec (root_lane nested_tree) [1, 1] left = leaf 1"
  using handle_select_climbs [of nested_tree 4 "[1, 1]" left]
  by (simp add: nested_tree_def nested_root_def select_by_spec_def ancestor_chain_def
      can_step_def axis_matches_def adjacent_index_def is_vertical_direction_def
      is_negative_direction_def)

lemma node_at_idents:
  "node_at c p = Some c' \<Longrightarrow> ident c' \<in> set (idents c)"
proof (induction c p rule: node_at.induct)
  case (1 c)
  then show ?case by (cases c) auto
next
  case (2 i a n k p)
  then show ?case by simp
next
  case (3 i s a n cs k p)
  then show ?case by (auto split: if_splits)
qed

lemma find_path_idents: "find_path c x = Some p \<Longrightarrow> x \<in> set (idents c)"
  using find_path_node_at node_at_idents by blast

lemma distinct_concat_nth:
  "distinct (concat (map f cs)) \<Longrightarrow> j < k \<Longrightarrow> k < length cs
     \<Longrightarrow> set (f (cs ! j)) \<inter> set (f (cs ! k)) = {}"
proof (induction cs arbitrary: j k)
  case Nil
  then show ?case by simp
next
  case (Cons c cs)
  show ?case
  proof (cases j)
    case 0
    with Cons.prems obtain k' where "k = Suc k'" "k' < length cs" by (cases k) auto
    with 0 Cons.prems show ?thesis by fastforce
  next
    case (Suc j')
    with Cons.prems obtain k' where "k = Suc k'" "k' < length cs" "j' < k'" by (cases k) auto
    with Suc Cons show ?thesis by auto
  qed
qed

lemma distinct_concat_nth_self:
  "distinct (concat (map f cs)) \<Longrightarrow> k < length cs \<Longrightarrow> distinct (f (cs ! k))"
  by (induction cs arbitrary: k) (auto simp: nth_Cons split: nat.splits)

lemma find_path_list_at:
  "k < length cs \<Longrightarrow> (\<forall>j<k. find_path (cs ! j) x = None) \<Longrightarrow> find_path (cs ! k) x = Some q
     \<Longrightarrow> find_path_list cs m x = Some ((m + k) # q)"
proof (induction cs arbitrary: k m)
  case Nil
  then show ?case by simp
next
  case (Cons c cs)
  show ?case
  proof (cases k)
    case 0
    with Cons.prems show ?thesis by simp
  next
    case (Suc k')
    have "find_path c x = None" using Cons.prems(2) Suc by force
    moreover have "find_path_list cs (Suc m) x = Some ((Suc m + k') # q)"
    proof (rule Cons.IH)
      show "k' < length cs" using Cons.prems(1) Suc by simp
      show "\<forall>j<k'. find_path (cs ! j) x = None"
        using Cons.prems(2) Suc by force
      show "find_path (cs ! k') x = Some q" using Cons.prems(3) Suc by simp
    qed
    ultimately show ?thesis using Suc by simp
  qed
qed

lemma find_path_unique:
  "distinct (idents c) \<Longrightarrow> node_at c p = Some c' \<Longrightarrow> find_path c (ident c') = Some p"
proof (induction c p rule: node_at.induct)
  case (1 c)
  then show ?case by (cases c) auto
next
  case (2 i a n k p)
  then show ?case by simp
next
  case (3 i s a n cs k p)
  from "3.prems" have k: "k < length cs" and at: "node_at (cs ! k) p = Some c'"
    by (auto split: if_splits)
  from "3.prems" have dc: "distinct (concat (map idents cs))"
    and ni: "i \<notin> set (concat (map idents cs))" by auto
  have dk: "distinct (idents (cs ! k))" using dc k by (rule distinct_concat_nth_self)
  have here: "find_path (cs ! k) (ident c') = Some p" using "3.IH" k dk at by simp
  have mem: "ident c' \<in> set (idents (cs ! k))" using at by (rule node_at_idents)
  have "ident c' \<in> set (concat (map idents cs))" using mem k by auto
  with ni have ne: "i \<noteq> ident c'" by auto
  have before: "\<forall>j<k. find_path (cs ! j) (ident c') = None"
  proof (intro allI impI)
    fix j assume "j < k"
    then have "set (idents (cs ! j)) \<inter> set (idents (cs ! k)) = {}"
      using dc k distinct_concat_nth by blast
    with mem have "ident c' \<notin> set (idents (cs ! j))" by auto
    then show "find_path (cs ! j) (ident c') = None"
      using find_path_idents by (cases "find_path (cs ! j) (ident c')") auto
  qed
  have "find_path_list cs 0 (ident c') = Some ((0 + k) # p)"
    using k before here by (rule find_path_list_at)
  with ne show ?case by simp
qed


lemma select_loop_snoc:
  assumes "node_at root q = Some (ParentContainer i s a n cs)" and "k < length cs"
  shows "select_loop root (q @ [k]) d =
           (if steps_within s d k (length cs)
            then get_closest_window_to_select_from_node (cs ! adjacent_index d k) d
            else select_loop root q d)"
  using assms
  by (auto simp: select_loop.simps [of root "q @ [k]"] steps_within_def axis_matches_def
      adjacent_index_def Let_def)

lemma first_found_leaf_mem: "first_found rs = leaf x \<Longrightarrow> leaf x \<in> set rs"
  by (induction rs rule: first_found.induct) auto

lemma get_closest_leaf_path:
  "get_closest_window_to_select_from_node c d = leaf x
     \<Longrightarrow> \<exists>r c'. node_at c r = Some c' \<and> ident c' = x"
proof (induction c)
  case (LeafContainer i a n)
  then have "node_at (LeafContainer i a n) [] = Some (LeafContainer i a n)
      \<and> ident (LeafContainer i a n) = x" by simp
  then show ?case by blast
next
  case (ParentContainer i s a n cs)
  let ?rs = "map (\<lambda>c. get_closest_window_to_select_from_node c d) cs"
  have "leaf x \<in> set ?rs"
  proof (cases "first_found (rev (tl ?rs)) = leaf x")
    case True
    then have "leaf x \<in> set (rev (tl ?rs))" by (rule first_found_leaf_mem)
    then show ?thesis by (cases cs) auto
  next
    case False
    with ParentContainer.prems have "first_found ?rs = leaf x"
      by (auto simp: Let_def split: if_splits sel_result.splits)
    then show ?thesis by (rule first_found_leaf_mem)
  qed
  then obtain k where k: "k < length cs"
    and "get_closest_window_to_select_from_node (cs ! k) d = leaf x"
    by (auto simp: in_set_conv_nth)
  with ParentContainer.IH [of "cs ! k"] obtain r c'
    where "node_at (cs ! k) r = Some c'" "ident c' = x" by auto
  with k have "node_at (ParentContainer i s a n cs) (k # r) = Some c' \<and> ident c' = x" by simp
  then show ?case by blast
qed

lemma adjacent_index_neq:
  "steps_within s d k n \<Longrightarrow> adjacent_index d k \<noteq> k"
  by (auto simp: adjacent_index_def steps_within_def split: if_splits)

lemma adjacent_index_less:
  "steps_within s d k n \<Longrightarrow> k < n \<Longrightarrow> adjacent_index d k < n"
  by (auto simp: adjacent_index_def steps_within_def split: if_splits)

lemma select_loop_leaf_path:
  "node_at root p = Some c \<Longrightarrow> select_loop root p d = leaf x
     \<Longrightarrow> \<exists>q k k' rest r c'. p = q @ k # rest \<and> k' \<noteq> k
           \<and> node_at root (q @ k' # r) = Some c' \<and> ident c' = x"
proof (induction p arbitrary: c rule: rev_induct)
  case Nil
  then show ?case by (simp add: select_loop.simps [of _ "[]"])
next
  case (snoc k q)
  obtain i s a n cs where par: "node_at root q = Some (ParentContainer i s a n cs)"
    and k: "k < length cs"
    using node_at_snoc_Some [OF snoc.prems(1)] by blast
  show ?case
  proof (cases "steps_within s d k (length cs)")
    case True
    note cond = True
    have "get_closest_window_to_select_from_node (cs ! adjacent_index d k) d = leaf x"
      using snoc.prems(2) True select_loop_snoc [OF par k, of d] by simp
    then obtain r c' where r: "node_at (cs ! adjacent_index d k) r = Some c'" "ident c' = x"
      using get_closest_leaf_path by blast
    have lt: "adjacent_index d k < length cs" using cond k by (rule adjacent_index_less)
    have ne: "adjacent_index d k \<noteq> k" using cond by (rule adjacent_index_neq)
    have "node_at root (q @ adjacent_index d k # r) = Some c'"
      using par lt r by (simp add: node_at_append)
    with ne r(2) have "q @ [k] = q @ k # [] \<and> adjacent_index d k \<noteq> k
        \<and> node_at root (q @ adjacent_index d k # r) = Some c' \<and> ident c' = x" by simp
    then show ?thesis by blast
  next
    case False
    then have "select_loop root q d = leaf x"
      using snoc.prems(2) select_loop_snoc [OF par k, of d] by simp
    from snoc.IH [OF par this] obtain q0 k0 k' rest r c'
      where "q = q0 @ k0 # rest" "k' \<noteq> k0" "node_at root (q0 @ k' # r) = Some c'" "ident c' = x"
      by blast
    then have "q @ [k] = q0 @ k0 # (rest @ [k]) \<and> k' \<noteq> k0
        \<and> node_at root (q0 @ k' # r) = Some c' \<and> ident c' = x" by simp
    then show ?thesis by blast
  qed
qed

text \<open>
  Claim C8. Let \<open>l\<close> be a leaf and \<open>m\<close> a container with the same parent lane, in a tree
  whose containers are pairwise different. If \<^verbatim>\<open>handle_select\<close> from \<open>l\<close> in direction
  \<open>d\<close> returns \<open>m\<close>, then \<^verbatim>\<open>handle_select\<close> from \<open>m\<close> in the opposite direction
  returns \<open>l\<close>. (That the common parent matches the axis of \<open>d\<close> follows: a select that
  climbs past the parent cannot come back to one of its children.)
\<close>

theorem select_round_trip:
  assumes dist: "distinct (idents (root_lane t))"
    and pl: "find_path (root_lane t) l = Some (pp @ [i])"
    and pm: "find_path (root_lane t) m = Some (pp @ [j])"
    and ll: "\<exists>c. node_of (root_lane t) l = Some c \<and> is_leaf c"
    and sel: "fst (handle_select t l d) = leaf m"
  shows "fst (handle_select t m (opposite d)) = leaf l"
proof -
  let ?root = "root_lane t"
  obtain cl where cl: "node_at ?root (pp @ [i]) = Some cl" "ident cl = l"
    using find_path_node_at [OF pl] by blast
  obtain cm where cm: "node_at ?root (pp @ [j]) = Some cm" "ident cm = m"
    using find_path_node_at [OF pm] by blast
  obtain pid s a n cs where par: "node_at ?root pp = Some (ParentContainer pid s a n cs)"
    and i: "i < length cs" and ci: "cs ! i = cl"
    using node_at_snoc_Some [OF cl(1)] by blast
  have j: "j < length cs" using node_at_snoc_Some [OF cm(1)] par by auto
  have leafl: "is_leaf cl" using ll pl cl by (auto simp: node_of_def)
  have loop: "select_loop ?root (pp @ [i]) d = leaf m"
    using sel pl by (cases "pp @ [i]") (auto simp: handle_select_def)
  have step: "steps_within s d i (length cs)"
  proof (rule ccontr)
    assume "\<not> steps_within s d i (length cs)"
    then have "select_loop ?root pp d = leaf m"
      using loop select_loop_snoc [OF par i, of d] by simp
    from select_loop_leaf_path [OF par this] obtain q0 k0 k' rest r c'
      where q: "pp = q0 @ k0 # rest" "k' \<noteq> k0" "node_at ?root (q0 @ k' # r) = Some c'"
        "ident c' = m" by blast
    have "find_path ?root m = Some (q0 @ k' # r)"
      using find_path_unique [OF dist q(3)] q(4) by simp
    with pm q(1) have "q0 @ k0 # rest @ [j] = q0 @ k' # r" by simp
    with q(2) show False by simp
  qed
  have adj: "get_closest_window_to_select_from_node (cs ! adjacent_index d i) d = leaf m"
    using loop step select_loop_snoc [OF par i, of d] by simp
  have lt: "adjacent_index d i < length cs" using step i by (rule adjacent_index_less)
  obtain r c' where r: "node_at (cs ! adjacent_index d i) r = Some c'" "ident c' = m"
    using get_closest_leaf_path [OF adj] by blast
  have "node_at ?root (pp @ adjacent_index d i # r) = Some c'"
    using par lt r by (simp add: node_at_append)
  then have "find_path ?root m = Some (pp @ adjacent_index d i # r)"
    using find_path_unique [OF dist] r(2) by blast
  with pm have jadj: "j = adjacent_index d i" and "r = []" by auto
  have back_index: "adjacent_index (opposite d) j = i"
    using jadj step
    by (cases d) (auto simp: adjacent_index_def steps_within_def is_negative_direction_def)
  have back_cond: "steps_within s (opposite d) j (length cs)"
    using step jadj i
    by (cases d) (auto simp: steps_within_def axis_matches_def adjacent_index_def
        is_negative_direction_def is_vertical_direction_def split: if_splits)
  have "select_loop ?root (pp @ [j]) (opposite d)
          = get_closest_window_to_select_from_node (cs ! i) (opposite d)"
    using back_cond back_index select_loop_snoc [OF par j, of "opposite d"] by simp
  also have "\<dots> = leaf l" using ci cl(2) leafl by (cases cl) auto
  finally show ?thesis
    using pm by (cases "pp @ [j]") (auto simp: handle_select_def)
qed

theorem select_round_trip_witness:
  "distinct (idents (root_lane narrow_tree))
   \<and> find_path (root_lane narrow_tree) 2 = Some ([] @ [1])
   \<and> find_path (root_lane narrow_tree) 1 = Some ([] @ [0])
   \<and> (\<exists>c. node_of (root_lane narrow_tree) 2 = Some c \<and> is_leaf c)
   \<and> fst (handle_select narrow_tree 2 left) = leaf 1
   \<and> fst (handle_select narrow_tree 1 (opposite left)) = leaf 2"
  using select_round_trip [of narrow_tree 2 "[]" 1 1 0 left]
  by (simp add: narrow_tree_def narrow_root_def node_of_def handle_select_def
      select_loop.simps is_vertical_direction_def is_negative_direction_def)

subsection \<open>Resize\<close>

text \<open>
  What holds of every resize. The staging loops keep the running total equal to the sum of
  the staged extents, so after the leftover is folded into the last rectangle the staged
  extents add up to the extent of the lane. A resize in a lane of the matching axis with
  more than one node either stops at the warning with nothing but the log changed, or
  applies a rectangle to every node of the lane and commits every node, and then the
  extents of the nodes add up to the extent of the lane.
\<close>

lemma stage_widths_total:
  "stage_widths env node r others nodes pending acc = Some (pending', acc')
     \<Longrightarrow> acc = sum_list (map size_width pending)
     \<Longrightarrow> acc' = sum_list (map size_width pending')
         \<and> length pending' = length pending + length nodes"
proof (induction nodes arbitrary: pending acc)
  case Nil
  then show ?case by auto
next
  case (Cons other_node rest)
  from Cons.prems(1) obtain rct where
    st: "stage_widths env node r others rest (pending @ [rct]) (acc + size_width rct)
           = Some (pending', acc')"
    by (auto simp: Let_def split: if_splits)
  have "acc + size_width rct = sum_list (map size_width (pending @ [rct]))"
    using Cons.prems(2) by simp
  from Cons.IH [OF st this] show ?case by simp
qed

lemma stage_heights_total:
  "stage_heights env node r others nodes pending acc = Some (pending', acc')
     \<Longrightarrow> acc = sum_list (map size_height pending)
     \<Longrightarrow> acc' = sum_list (map size_height pending')
         \<and> length pending' = length pending + length nodes"
proof (induction nodes arbitrary: pending acc)
  case Nil
  then show ?case by auto
next
  case (Cons other_node rest)
  from Cons.prems(1) obtain rct where
    st: "stage_heights env node r others rest (pending @ [rct]) (acc + size_height rct)
           = Some (pending', acc')"
    by (auto simp: Let_def split: if_splits)
  have "acc + size_height rct = sum_list (map size_height (pending @ [rct]))"
    using Cons.prems(2) by simp
  from Cons.IH [OF st this] show ?case by simp
qed

lemma sum_list_butlast_last:
  "xs \<noteq> [] \<Longrightarrow> sum_list (map f (butlast xs)) + f (last xs) = (sum_list (map f xs) :: int)"
  by (induction xs) auto

lemma pending_node_resizes_sum:
  assumes "pending_node_resizes env is_vertical node r parent = Some final"
    and "get_sub_nodes parent \<noteq> []"
  shows "length final = length (get_sub_nodes parent)
       \<and> (if is_vertical
           then sum_list (map size_height final) = size_height (get_logical_area parent)
           else sum_list (map size_width final) = size_width (get_logical_area parent))"
proof (cases is_vertical)
  case True
  with assms(1) obtain pending acc where
    st: "stage_heights env node r ((- r) div (int (length (get_sub_nodes parent)) - 1))
           (get_sub_nodes parent) [] 0 = Some (pending, acc)"
    and fin: "final = butlast pending
        @ [(last pending)\<lparr>size_height := size_height (last pending)
             + (size_height (get_logical_area parent) - acc)\<rparr>]"
    by (auto simp: pending_node_resizes_def Let_def split: option.splits)
  from stage_heights_total [OF st] have tot_eq: "acc = sum_list (map size_height pending)"
    and len: "length pending = length (get_sub_nodes parent)" by simp_all
  from len assms(2) have ne: "pending \<noteq> []" by auto
  have "sum_list (map size_height final)
      = sum_list (map size_height (butlast pending)) + size_height (last pending)
        + (size_height (get_logical_area parent) - acc)"
    using fin by simp
  also have "\<dots> = size_height (get_logical_area parent)"
    using sum_list_butlast_last [OF ne, of size_height] tot_eq by simp
  finally have sum: "sum_list (map size_height final) = size_height (get_logical_area parent)" .
  have "length final = length pending"
    using fin ne by (cases pending rule: rev_cases) auto
  with sum len True show ?thesis by simp
next
  case False
  with assms(1) obtain pending acc where
    st: "stage_widths env node r ((- r) div (int (length (get_sub_nodes parent)) - 1))
           (get_sub_nodes parent) [] 0 = Some (pending, acc)"
    and fin: "final = butlast pending
        @ [(last pending)\<lparr>size_width := size_width (last pending)
             + (size_width (get_logical_area parent) - acc)\<rparr>]"
    by (auto simp: pending_node_resizes_def Let_def split: option.splits)
  from stage_widths_total [OF st] have tot_eq: "acc = sum_list (map size_width pending)"
    and len: "length pending = length (get_sub_nodes parent)" by simp_all
  from len assms(2) have ne: "pending \<noteq> []" by auto
  have "sum_list (map size_width final)
      = sum_list (map size_width (butlast pending)) + size_width (last pending)
        + (size_width (get_logical_area parent) - acc)"
    using fin by simp
  also have "\<dots> = size_width (get_logical_area parent)"
    using sum_list_butlast_last [OF ne, of size_width] tot_eq by simp
  finally have sum: "sum_list (map size_width final) = size_width (get_logical_area parent)" .
  have "length final = length pending"
    using fin ne by (cases pending rule: rev_cases) auto
  with sum len False show ?thesis by simp
qed

lemma get_logical_area_committed:
  "get_logical_area (commit_changes (set_logical_area r c)) = r"
  by (cases c) (simp_all add: get_logical_area_def)

lemma apply_pending_areas:
  "length pending = length cs \<Longrightarrow>
     map get_logical_area (get_sub_nodes (apply_pending pending (ParentContainer i s a n cs)))
       = pending"
  by (induction cs arbitrary: pending)
    (auto simp: get_logical_area_committed length_Suc_conv)

lemma apply_pending_own_area:
  "get_logical_area (apply_pending pending (ParentContainer i s a n cs))
     = get_logical_area (ParentContainer i s a n cs)"
  by (cases n) (simp_all add: get_logical_area_def)


lemma node_at_update_at:
  "node_at root q = Some c \<Longrightarrow> node_at (update_at q f root) q = Some (f c)"
proof (induction root q rule: node_at.induct)
  case (1 c)
  then show ?case by simp
next
  case (2 i a n k p)
  then show ?case by simp
next
  case (3 i s a n cs k p)
  then show ?case by (auto split: if_splits)
qed

lemma resize_all_or_nothing:
  assumes node: "node_at (root_lane t) (q @ [k]) = Some c"
    and par: "node_at (root_lane t) q = Some (ParentContainer i s a n cs)"
    and main: "(d = up \<or> d = down) \<and> s = vertical \<or> \<not> (d = up \<or> d = down) \<and> s = horizontal"
    and more: "length cs \<noteq> 1"
  shows "handle_resize_at env (q @ [k]) d amount t =
           add_event (log_warning
             ''Unable to resize a rectangle that would cause another to be negative'') t
       \<or> (\<exists>lane. node_at (root_lane (handle_resize_at env (q @ [k]) d amount t)) q = Some lane
            \<and> length (get_sub_nodes lane) = length cs
            \<and> sum_list (map (\<lambda>x. extent (d = up \<or> d = down) (get_logical_area x))
                 (get_sub_nodes lane))
                = extent (d = up \<or> d = down) (get_logical_area lane)
            \<and> get_logical_area lane = get_logical_area (ParentContainer i s a n cs)
            \<and> events (handle_resize_at env (q @ [k]) d amount t)
                = events t @ map (\<lambda>x. commit_call (ident x)) cs)"
proof -
  let ?parent = "ParentContainer i s a n cs"
  let ?v = "d = up \<or> d = down"
  let ?r = "if d = left \<or> d = up then - amount else amount"
  have ne: "cs \<noteq> []" using node_at_snoc_Some [OF node] par by auto
  show ?thesis
  proof (cases "pending_node_resizes env ?v (ident c) ?r ?parent")
    case None
    then have "handle_resize_at env (q @ [k]) d amount t =
           add_event (log_warning
             ''Unable to resize a rectangle that would cause another to be negative'') t"
      using node par main more
      by (simp add: handle_resize_at.simps [of env "q @ [k]"] Let_def)
    then show ?thesis by simp
  next
    case (Some final)
    then have res: "handle_resize_at env (q @ [k]) d amount t =
        t\<lparr>root_lane := update_at q (apply_pending final) (root_lane t),
          events := events t @ map (\<lambda>x. commit_call (ident x)) cs\<rparr>"
      using node par main more
      by (simp add: handle_resize_at.simps [of env "q @ [k]"] Let_def)
    from pending_node_resizes_sum [OF Some] ne
    have len: "length final = length cs"
      and sum: "if ?v then sum_list (map size_height final) = size_height (get_logical_area ?parent)
                else sum_list (map size_width final) = size_width (get_logical_area ?parent)"
      by simp_all
    define lane where "lane = apply_pending final ?parent"
    have at: "node_at (root_lane (handle_resize_at env (q @ [k]) d amount t)) q = Some lane"
      using res node_at_update_at [OF par] by (simp add: lane_def)
    have areas: "map get_logical_area (get_sub_nodes lane) = final"
      unfolding lane_def using len by (rule apply_pending_areas)
    have own: "get_logical_area lane = get_logical_area ?parent"
      unfolding lane_def by (rule apply_pending_own_area)
    have "map (\<lambda>x. extent ?v (get_logical_area x)) (get_sub_nodes lane)
        = map (extent ?v) (map get_logical_area (get_sub_nodes lane))" by simp
    also have "\<dots> = map (extent ?v) final" using areas by simp
    finally have "sum_list (map (\<lambda>x. extent ?v (get_logical_area x)) (get_sub_nodes lane))
        = sum_list (map (extent ?v) final)" by simp
    also have "\<dots> = extent ?v (get_logical_area ?parent)"
      using sum by (cases ?v) (simp_all add: extent_def cong: map_cong)
    finally have total: "sum_list (map (\<lambda>x. extent ?v (get_logical_area x)) (get_sub_nodes lane))
        = extent ?v (get_logical_area lane)"
      using own by simp
    have "length (get_sub_nodes lane) = length final"
      using areas by (metis length_map)
    then have n: "length (get_sub_nodes lane) = length cs" using len by simp
    have ev: "events (handle_resize_at env (q @ [k]) d amount t)
                = events t @ map (\<lambda>x. commit_call (ident x)) cs"
      using res by simp
    from at n total own ev show ?thesis by blast
  qed
qed

text \<open>
  Claim C1, evaluated where it fails. In a horizontal lane of width 920 with a leaf of
  width 60 and a leaf of width 860, resizing the first leaf to the left by 100 stages the
  width \<open>60 - 100 = -40\<close> for it, which is below the minimum 50. The check compares
  \<open>-40\<close> as a \<^verbatim>\<open>size_t\<close>, finds it above 50 and does not abort: both staged
  rectangles are applied and committed.
\<close>

theorem resize_accepts_negative_width:
  "resize_container example_env left 1 narrow_tree =
     (True, narrow_tree\<lparr>root_lane :=
        ParentContainer 0 horizontal (rect 0 0 920 600) None
          [LeafContainer 1 (rect 0 0 (- 40) 600) None,
           LeafContainer 2 (rect (- 40) 0 960 600) None],
        events := [commit_call 1, commit_call 2]\<rparr>)"
  by (simp add: resize_container_def handle_resize_def handle_resize_at.simps
      pending_node_resizes_def narrow_tree_def narrow_root_def example_env_def rect_def
      as_size_t_def get_logical_area_def Let_def)

text \<open>
  Claim C2, evaluated at the same input. After the resize the widths of the two siblings
  are \<open>-40\<close> and \<open>960\<close>: they add up to the 920 of the lane, but the first is under its
  minimum of 50.
\<close>

theorem resize_leaves_width_under_minimum:
  "map (\<lambda>c. size_width (get_logical_area c))
       (get_sub_nodes (root_lane (handle_resize example_env 1 left 100 narrow_tree)))
     = [- 40, 960]
   \<and> map (get_min_width example_env)
       (get_sub_nodes (root_lane (handle_resize example_env 1 left 100 narrow_tree)))
     = [50, 50]"
  by (simp add: handle_resize_def handle_resize_at.simps
      pending_node_resizes_def narrow_tree_def narrow_root_def example_env_def rect_def
      as_size_t_def get_logical_area_def Let_def)

subsection \<open>The visible area\<close>

text \<open>
  On the left and on the top the climb agrees with the design document's sentence: the
  index to avoid is 0 at every level.
\<close>

lemma has_neighbor_levels:
  "node_at root p = Some c \<Longrightarrow>
     has_neighbor root p direction cannot_be_index =
       (\<exists>k<length p. case node_at root (take k p) of
                         Some (ParentContainer i s a n cs) \<Rightarrow>
                           s = direction \<and> length cs > 1 \<and> p ! k \<noteq> cannot_be_index
                       | _ \<Rightarrow> False)"
proof (induction p arbitrary: c rule: rev_induct)
  case Nil
  then show ?case by (simp add: has_neighbor.simps [of _ "[]"])
next
  case (snoc j q)
  obtain i s a n cs where par: "node_at root q = Some (ParentContainer i s a n cs)"
    using node_at_snoc_Some [OF snoc.prems] by blast
  let ?P = "\<lambda>p k. case node_at root (take k p) of
                         Some (ParentContainer i s a n cs) \<Rightarrow>
                           s = direction \<and> length cs > 1 \<and> p ! k \<noteq> cannot_be_index
                       | _ \<Rightarrow> False"
  have below: "?P (q @ [j]) k = ?P q k" if "k < length q" for k
    using that by (simp add: nth_append split: option.splits container.splits)
  have top: "?P (q @ [j]) (length q) = (s = direction \<and> length cs > 1 \<and> j \<noteq> cannot_be_index)"
    using par by simp
  have "(\<exists>k<length (q @ [j]). ?P (q @ [j]) k)
      = ((\<exists>k<length q. ?P (q @ [j]) k) \<or> ?P (q @ [j]) (length q))"
    by (auto simp: less_Suc_eq)
  also have "\<dots> = ((\<exists>k<length q. ?P q k) \<or> (s = direction \<and> length cs > 1 \<and> j \<noteq> cannot_be_index))"
    using below top by auto
  also have "\<dots> = (has_neighbor root q direction cannot_be_index
                    \<or> (s = direction \<and> length cs > 1 \<and> j \<noteq> cannot_be_index))"
    using snoc.IH [OF par] by simp
  also have "\<dots> = has_neighbor root (q @ [j]) direction cannot_be_index"
    using par by (auto simp: has_neighbor.simps [of root "q @ [j]"])
  finally show ?case by simp
qed

lemma left_neighbor_by_spec:
  assumes "node_at root p = Some c"
  shows "has_left_neighbor root p = sibling_on_side root p left"
  using has_neighbor_levels [OF assms, of horizontal 0]
  by (cases "p = []")
    (simp_all add: has_left_neighbor_def sibling_on_side_def list_ex_iff
      is_negative_direction_def Bex_def cong: option.case_cong container.case_cong)

lemma top_neighbor_by_spec:
  assumes "node_at root p = Some c"
  shows "has_top_neighbor root p = sibling_on_side root p up"
  using has_neighbor_levels [OF assms, of vertical 0]
  by (cases "p = []")
    (simp_all add: has_top_neighbor_def sibling_on_side_def list_ex_iff
      is_negative_direction_def Bex_def cong: option.case_cong container.case_cong)

text \<open>
  Claim C9, evaluated where it fails. In \<open>H0 [A1, V2 [B3, C4, D5]]\<close> the leaf \<open>B3\<close> has
  nothing to its right: its lane \<open>V2\<close> is the last child of the horizontal root. Still
  \<^verbatim>\<open>get_neighbors\<close> reports a right neighbour, because the index that the climb
  compares with at the root is the last index of \<open>V2\<close> (2) and not the last index of the
  root (1). With an inner gap of 10 and a border of 2 the visible width is
  \<open>460 - 5 - 5 - 4 = 446\<close>, where the right edge should have received no gap (451).
\<close>

theorem gap_without_right_sibling:
  "get_neighbors nested_root [1, 0] right
   \<and> \<not> sibling_on_side nested_root [1, 0] right
   \<and> logical_area (LeafContainer 3 (rect 460 0 460 200) None) = rect 460 0 460 200
   \<and> node_at nested_root [1, 0] = Some (LeafContainer 3 (rect 460 0 460 200) None)
   \<and> get_visible_area example_env nested_root [1, 0] = rect 467 2 446 191"
  by (simp add: get_visible_area_def has_right_neighbor_def has_left_neighbor_def
      has_top_neighbor_def has_bottom_neighbor_def has_neighbor.simps sibling_on_side_def
      nested_root_def example_env_def rect_def half_gap_def is_negative_direction_def Let_def)

subsection \<open>Remove\<close>

lemma remove_child_keeps_lanes:
  "lanes_nonempty c \<Longrightarrow>
     lanes_nonempty (remove_child lane x c) \<or> became_empty c (remove_child lane x c)"
proof (induction c)
  case (LeafContainer i a n)
  then show ?case by simp
next
  case (ParentContainer i s a n cs)
  have kept: "list_all lanes_nonempty
      (concat (map (\<lambda>c. if became_empty c (remove_child lane x c) then []
                         else [remove_child lane x c]) cs))"
    using ParentContainer by (auto simp: list_all_iff)
  have filt: "list_all lanes_nonempty (filter (\<lambda>c. ident c \<noteq> x) cs)"
    using ParentContainer.prems by (auto simp: list_all_iff)
  from ParentContainer.prems have ne: "cs \<noteq> []" by simp
  show ?case
  proof (cases "i = lane")
    case True
    with filt ne show ?thesis by (auto simp: became_empty_def)
  next
    case False
    with kept ne show ?thesis by (auto simp: became_empty_def)
  qed
qed

lemma remove_child_root_keeps_lanes:
  assumes "no_empty_internal_lane root"
  shows "no_empty_internal_lane (remove_child lane x root)"
proof (cases root)
  case (LeafContainer i a n)
  with assms show ?thesis by simp
next
  case (ParentContainer i s a n cs)
  have "list_all lanes_nonempty
      (concat (map (\<lambda>c. if became_empty c (remove_child lane x c) then []
                         else [remove_child lane x c]) cs))"
    using assms ParentContainer remove_child_keeps_lanes
    by (auto simp: list_all_iff no_empty_internal_lane_def)
  moreover have "list_all lanes_nonempty (filter (\<lambda>c. ident c \<noteq> x) cs)"
    using assms ParentContainer by (auto simp: list_all_iff no_empty_internal_lane_def)
  ultimately show ?thesis
    using ParentContainer by (simp add: no_empty_internal_lane_def)
qed

lemma handle_remove_keeps_lanes:
  "no_empty_internal_lane (root_lane t)
     \<Longrightarrow> no_empty_internal_lane (root_lane (snd (handle_remove node t)))"
  by (auto simp: handle_remove_def remove_child_root_keeps_lanes split: option.splits)

lemma handle_remove_all_keeps_lanes:
  "no_empty_internal_lane (root_lane t)
     \<Longrightarrow> no_empty_internal_lane (root_lane (handle_remove_all nodes t))"
  by (induction nodes arbitrary: t) (simp_all add: handle_remove_keeps_lanes)


lemma node_at_idents_subset:
  "node_at c p = Some c' \<Longrightarrow> set (idents c') \<subseteq> set (idents c)"
proof (induction c p rule: node_at.induct)
  case (1 c)
  then show ?case by simp
next
  case (2 i a n k p)
  then show ?case by simp
next
  case (3 i s a n cs k p)
  then have k: "k < length cs" and sub: "set (idents c') \<subseteq> set (idents (cs ! k))"
    by (auto split: if_splits)
  from k have "cs ! k \<in> set cs" by simp
  with sub show ?case by auto
qed

lemma remove_child_idents_subset:
  "set (idents (remove_child lane x c)) \<subseteq> set (idents c)"
proof (induction c)
  case (LeafContainer i a n)
  then show ?case by simp
next
  case (ParentContainer i s a n cs)
  then show ?case by (auto split: if_splits)
qed

lemma distinct_children_disjoint:
  assumes "distinct (concat (map idents cs))" "j < length cs" "k < length cs" "j \<noteq> k"
  shows "set (idents (cs ! j)) \<inter> set (idents (cs ! k)) = {}"
proof (cases "j < k")
  case True
  with assms show ?thesis using distinct_concat_nth by blast
next
  case False
  with assms have "k < j" by simp
  with assms have "set (idents (cs ! k)) \<inter> set (idents (cs ! j)) = {}"
    using distinct_concat_nth by blast
  then show ?thesis by blast
qed

lemma ident_in_idents: "ident c \<in> set (idents c)"
  by (cases c) simp_all

lemma remove_child_detaches:
  "distinct (idents c) \<Longrightarrow> node_at c q = Some (ParentContainer lane s a n cs) \<Longrightarrow> k < length cs
     \<Longrightarrow> set (idents (remove_child lane (ident (cs ! k)) c)) \<inter> set (idents (cs ! k)) = {}"
proof (induction c q rule: node_at.induct)
  case (1 c)
  then have c: "c = ParentContainer lane s a n cs" by simp
  from "1.prems"(1) c have dc: "distinct (concat (map idents cs))"
    and nl: "lane \<notin> set (concat (map idents cs))" by auto
  have "lane \<notin> set (idents (cs ! k))" using nl "1.prems"(3) by auto
  moreover have "set (idents c') \<inter> set (idents (cs ! k)) = {}"
    if "c' \<in> set cs" "ident c' \<noteq> ident (cs ! k)" for c'
  proof -
    from that obtain j where j: "j < length cs" "cs ! j = c'" by (auto simp: in_set_conv_nth)
    with that have "j \<noteq> k" by auto
    with dc j "1.prems"(3) show ?thesis using distinct_children_disjoint by blast
  qed
  ultimately show ?case using c by auto
next
  case (2 i a n k p)
  then show ?case by simp
next
  case (3 i s0 a0 n0 cs0 m q')
  from "3.prems"(2) have m: "m < length cs0"
    and at: "node_at (cs0 ! m) q' = Some (ParentContainer lane s a n cs)"
    by (auto split: if_splits)
  from "3.prems"(1) have dc: "distinct (concat (map idents cs0))"
    and ni: "i \<notin> set (concat (map idents cs0))" by auto
  have dm: "distinct (idents (cs0 ! m))" using dc m by (rule distinct_concat_nth_self)
  have sub: "set (idents (ParentContainer lane s a n cs)) \<subseteq> set (idents (cs0 ! m))"
    using at by (rule node_at_idents_subset)
  have "set (idents (cs ! k)) \<subseteq> set (idents (ParentContainer lane s a n cs))"
    using "3.prems"(3) by auto
  with sub have subk: "set (idents (cs ! k)) \<subseteq> set (idents (cs0 ! m))" by blast
  have "lane \<in> set (idents (cs0 ! m))" using sub by auto
  then have "lane \<in> set (concat (map idents cs0))" using m by auto
  with ni have il: "i \<noteq> lane" by auto
  have ih: "set (idents (remove_child lane (ident (cs ! k)) (cs0 ! m))) \<inter> set (idents (cs ! k)) = {}"
    using "3.IH" m dm at "3.prems"(3) by simp
  have ik: "i \<notin> set (idents (cs ! k))"
    using subk ni m by auto
  have other: "set (idents (remove_child lane (ident (cs ! k)) c')) \<inter> set (idents (cs ! k)) = {}"
    if "c' \<in> set cs0" for c'
  proof -
    from that obtain j where j: "j < length cs0" "cs0 ! j = c'" by (auto simp: in_set_conv_nth)
    show ?thesis
    proof (cases "j = m")
      case True
      with ih j show ?thesis by simp
    next
      case False
      then have "set (idents (cs0 ! j)) \<inter> set (idents (cs0 ! m)) = {}"
        using dc j m distinct_children_disjoint by blast
      moreover have "set (idents (remove_child lane (ident (cs ! k)) (cs0 ! j)))
          \<subseteq> set (idents (cs0 ! j))" by (rule remove_child_idents_subset)
      ultimately show ?thesis using subk j by blast
    qed
  qed
  show ?case using il ik other by (auto split: if_splits)
qed


lemma get_parent_path:
  assumes "get_parent root x = Some parent"
  obtains q k where "find_path root x = Some (q @ [k])" "node_at root q = Some parent"
proof -
  from assms obtain p where p: "find_path root x = Some p" "p \<noteq> []"
    "node_at root (butlast p) = Some parent"
    by (auto simp: get_parent_def split: option.splits list.splits)
  then have "p = butlast p @ [last p]" by simp
  with p that show ?thesis by metis
qed

lemma child_idents_subset:
  "k < length cs \<Longrightarrow> set (idents (cs ! k)) \<subseteq> set (idents (ParentContainer i s a n cs))"
  by auto

lemma handle_remove_detaches_node:
  assumes dist: "distinct (idents (root_lane t))"
    and gp: "get_parent (root_lane t) node = Some parent"
  shows "node \<notin> set (idents (root_lane (snd (handle_remove node t))))"
    and "num_nodes parent = 1 \<Longrightarrow> get_parent (root_lane t) (ident parent) = Some grandparent
           \<Longrightarrow> fst (handle_remove node t) = Some (ident grandparent)
               \<and> ident parent \<notin> set (idents (root_lane (snd (handle_remove node t))))
               \<and> root_lane (snd (handle_remove node t))
                   = remove_child (ident grandparent) (ident parent) (root_lane t)"
proof -
  let ?root = "root_lane t"
  obtain q k where pn: "find_path ?root node = Some (q @ [k])" and par: "node_at ?root q = Some parent"
    using gp by (rule get_parent_path)
  obtain cn where cn: "node_at ?root (q @ [k]) = Some cn" "ident cn = node"
    using find_path_node_at [OF pn] by blast
  obtain pid s a n cs where pshape: "parent = ParentContainer pid s a n cs"
    and k: "k < length cs" and ck: "cs ! k = cn"
    using node_at_snoc_Some [OF cn(1)] par by auto
  have node_in_parent: "node \<in> set (idents parent)"
    using child_idents_subset [OF k, of pid s a n] ident_in_idents [of cn] ck cn(2) pshape by auto
  have direct: "node \<notin> set (idents (remove_child (ident parent) node ?root))"
  proof -
    have "set (idents (remove_child pid (ident (cs ! k)) ?root)) \<inter> set (idents (cs ! k)) = {}"
      using dist par k unfolding pshape by (rule remove_child_detaches)
    then show ?thesis using ck cn(2) ident_in_idents [of cn] pshape by auto
  qed
  have lane: "fst (handle_remove node t) = Some (ident grandparent)
        \<and> ident parent \<notin> set (idents (root_lane (snd (handle_remove node t))))
        \<and> node \<notin> set (idents (root_lane (snd (handle_remove node t))))
        \<and> root_lane (snd (handle_remove node t))
            = remove_child (ident grandparent) (ident parent) ?root"
    if one: "num_nodes parent = 1" and ggp: "get_parent ?root (ident parent) = Some grandparent"
    for grandparent
  proof -
    obtain q' k' where pp: "find_path ?root (ident parent) = Some (q' @ [k'])"
      and gpar: "node_at ?root q' = Some grandparent"
      using ggp by (rule get_parent_path)
    have "find_path ?root (ident parent) = Some q"
      using dist par by (rule find_path_unique)
    with pp have q: "q = q' @ [k']" by simp
    obtain gid gs ga gn gcs where gshape: "grandparent = ParentContainer gid gs ga gn gcs"
      and k': "k' < length gcs" and gk: "gcs ! k' = parent"
      using node_at_snoc_Some [of ?root q' k' parent] par q gpar by auto
    have "set (idents (remove_child gid (ident (gcs ! k')) ?root)) \<inter> set (idents (gcs ! k')) = {}"
      using dist gpar k' unfolding gshape by (rule remove_child_detaches)
    then have gone: "set (idents (remove_child (ident grandparent) (ident parent) ?root))
        \<inter> set (idents parent) = {}"
      using gk gshape by simp
    have res: "handle_remove node t
        = (Some (ident grandparent),
           t\<lparr>root_lane := remove_child (ident grandparent) (ident parent) ?root\<rparr>)"
      using gp ggp one by (simp add: handle_remove_def)
    show ?thesis
      using res gone node_in_parent ident_in_idents [of parent] by auto
  qed
  show "node \<notin> set (idents (root_lane (snd (handle_remove node t))))"
  proof (cases "get_parent ?root (ident parent)")
    case None
    with gp direct show ?thesis by (simp add: handle_remove_def)
  next
    case (Some grandparent)
    show ?thesis
    proof (cases "num_nodes parent = 1")
      case True
      with Some lane show ?thesis by blast
    next
      case False
      with Some gp direct show ?thesis by (simp add: handle_remove_def)
    qed
  qed
  show "fst (handle_remove node t) = Some (ident grandparent)
        \<and> ident parent \<notin> set (idents (root_lane (snd (handle_remove node t))))
        \<and> root_lane (snd (handle_remove node t))
            = remove_child (ident grandparent) (ident parent) (root_lane t)"
    if "num_nodes parent = 1" "get_parent (root_lane t) (ident parent) = Some grandparent"
    using lane [OF that] by blast
qed

lemma distinct_child_idents:
  "distinct (concat (map idents cs)) \<Longrightarrow> distinct (map ident cs)"
proof (induction cs)
  case Nil
  then show ?case by simp
next
  case (Cons c cs)
  have "ident c' \<noteq> ident c" if "c' \<in> set cs" for c'
  proof
    assume "ident c' = ident c"
    then have "ident c \<in> set (idents c')" using ident_in_idents [of c'] by simp
    with that have "ident c \<in> set (concat (map idents cs))" by auto
    moreover have "ident c \<in> set (idents c)" by (rule ident_in_idents)
    ultimately show False using Cons.prems by auto
  qed
  then have "ident c \<notin> set (map ident cs)" by (metis imageE list.set_map)
  moreover have "distinct (map ident cs)" using Cons by simp
  ultimately show ?case by simp
qed

lemma concat_map_singletons:
  "(\<And>c. c \<in> set cs \<Longrightarrow> g c = [c]) \<Longrightarrow> concat (map g cs) = cs"
  by (induction cs) simp_all

lemma filter_other_idents:
  "distinct (map ident cs) \<Longrightarrow> k < length cs
     \<Longrightarrow> filter (\<lambda>c. ident c \<noteq> ident (cs ! k)) cs = take k cs @ drop (Suc k) cs"
proof (induction cs arbitrary: k)
  case Nil
  then show ?case by simp
next
  case (Cons c cs)
  show ?case
  proof (cases k)
    case 0
    have "ident c \<notin> ident ` set cs" using Cons.prems(1) by simp
    then have "\<forall>x\<in>set cs. ident x \<noteq> ident c" by (metis image_eqI)
    then have "filter (\<lambda>x. ident x \<noteq> ident c) cs = cs" by (intro filter_True) simp
    with 0 show ?thesis by simp
  next
    case (Suc k')
    with Cons.prems have "k' < length cs" by simp
    then have "cs ! k' \<in> set cs" by simp
    moreover have "ident c \<notin> ident ` set cs" using Cons.prems(1) by simp
    ultimately have "ident c \<noteq> ident (cs ! k')" by (metis image_eqI)
    with Suc Cons show ?thesis by simp
  qed
qed

lemma became_empty_same: "\<not> became_empty c c"
  by (auto simp: became_empty_def)

lemma remove_child_other:
  "lane \<notin> set (idents c) \<Longrightarrow> remove_child lane x c = c"
proof (induction c)
  case (LeafContainer i a n)
  show ?case by simp
next
  case (ParentContainer i s a n cs)
  then have "\<And>c. c \<in> set cs \<Longrightarrow> remove_child lane x c = c" by auto
  then have "concat (map (\<lambda>c. if became_empty c (remove_child lane x c) then []
                        else [remove_child lane x c]) cs) = cs"
    by (intro concat_map_singletons) (simp add: became_empty_same)
  moreover have "i \<noteq> lane" using ParentContainer.prems by auto
  ultimately show ?case by simp
qed

lemma remove_child_is_leaf: "is_leaf (remove_child lane x c) = is_leaf c"
  by (cases c) simp_all

lemma node_at_Cons_nonempty:
  assumes "node_at c (k # p) = Some x"
  shows "\<not> is_leaf c \<and> num_nodes c \<noteq> 0"
proof (cases c)
  case (LeafContainer i a n)
  with assms show ?thesis by simp
next
  case (ParentContainer i s a n cs)
  with assms have "k < length cs" by (auto split: if_splits)
  with ParentContainer show ?thesis by auto
qed

lemma concat_map_at:
  "m < length xs \<Longrightarrow> (\<And>j. j < length xs \<Longrightarrow> j \<noteq> m \<Longrightarrow> g (xs ! j) = [xs ! j])
     \<Longrightarrow> concat (map g xs) = take m xs @ g (xs ! m) @ drop (Suc m) xs"
proof (induction xs arbitrary: m)
  case Nil
  then show ?case by simp
next
  case (Cons x xs)
  show ?case
  proof (cases m)
    case 0
    have "\<And>y. y \<in> set xs \<Longrightarrow> g y = [y]"
    proof -
      fix y assume "y \<in> set xs"
      then obtain j where "j < length xs" "xs ! j = y" by (auto simp: in_set_conv_nth)
      then show "g y = [y]" using Cons.prems(2) [of "Suc j"] 0 by auto
    qed
    then have "concat (map g xs) = xs" by (rule concat_map_singletons)
    then show ?thesis using 0 by simp
  next
    case (Suc m')
    have gx: "g x = [x]" using Cons.prems(2) [of 0] Suc by simp
    have "concat (map g xs) = take m' xs @ g (xs ! m') @ drop (Suc m') xs"
    proof (rule Cons.IH)
      show "m' < length xs" using Cons.prems(1) Suc by simp
      fix j assume "j < length xs" "j \<noteq> m'"
      then show "g (xs ! j) = [xs ! j]" using Cons.prems(2) [of "Suc j"] Suc by simp
    qed
    with gx Suc show ?thesis by simp
  qed
qed


lemma remove_child_path:
  "distinct (idents c) \<Longrightarrow> node_at c q = Some (ParentContainer lane s a n cs) \<Longrightarrow> k < length cs
     \<Longrightarrow> remove_child lane (ident (cs ! k)) c = erase_cascading (q @ [k]) c"
proof (induction c q rule: node_at.induct)
  case (1 c)
  then have c: "c = ParentContainer lane s a n cs" by simp
  with "1.prems"(1) have "distinct (concat (map idents cs))" by simp
  then have "distinct (map ident cs)" by (rule distinct_child_idents)
  then have "filter (\<lambda>c. ident c \<noteq> ident (cs ! k)) cs = take k cs @ drop (Suc k) cs"
    using "1.prems"(3) by (rule filter_other_idents)
  with c show ?case by simp
next
  case (2 i a n k p)
  then show ?case by simp
next
  case (3 i s0 a0 n0 cs0 m q')
  let ?x = "ident (cs ! k)"
  from "3.prems"(2) have m: "m < length cs0"
    and at: "node_at (cs0 ! m) q' = Some (ParentContainer lane s a n cs)"
    by (auto split: if_splits)
  from "3.prems"(1) have dc: "distinct (concat (map idents cs0))"
    and ni: "i \<notin> set (concat (map idents cs0))" by auto
  have dm: "distinct (idents (cs0 ! m))" using dc m by (rule distinct_concat_nth_self)
  have lane_in: "lane \<in> set (idents (cs0 ! m))"
    using node_at_idents [OF at] by simp
  then have "lane \<in> set (concat (map idents cs0))" using m by auto
  with ni have il: "i \<noteq> lane" by auto
  define c' where "c' = erase_cascading (q' @ [k]) (cs0 ! m)"
  have ih: "remove_child lane ?x (cs0 ! m) = c'"
    using "3.IH" m dm at "3.prems"(3) by (simp add: c'_def)
  have on_path: "node_at (cs0 ! m) (q' @ [k]) = Some (cs ! k)"
    using at "3.prems"(3) by (simp add: node_at_append)
  have "\<not> is_leaf (cs0 ! m) \<and> num_nodes (cs0 ! m) \<noteq> 0"
  proof (cases q')
    case Nil
    with at "3.prems"(3) show ?thesis by auto
  next
    case (Cons j p)
    with on_path show ?thesis using node_at_Cons_nonempty [of "cs0 ! m" j "p @ [k]"] by simp
  qed
  let ?g = "\<lambda>c. if became_empty c (remove_child lane ?x c) then [] else [remove_child lane ?x c]"
  have others: "?g (cs0 ! j) = [cs0 ! j]" if "j < length cs0" "j \<noteq> m" for j
  proof -
    have "set (idents (cs0 ! j)) \<inter> set (idents (cs0 ! m)) = {}"
      using dc that m distinct_children_disjoint by blast
    with lane_in have "lane \<notin> set (idents (cs0 ! j))" by auto
    then have "remove_child lane ?x (cs0 ! j) = cs0 ! j" by (rule remove_child_other)
    then show ?thesis by (simp add: became_empty_same)
  qed
  have "concat (map ?g cs0) = take m cs0 @ ?g (cs0 ! m) @ drop (Suc m) cs0"
    using m others by (rule concat_map_at)
  also have "\<dots> = (if became_empty (cs0 ! m) c' then take m cs0 @ drop (Suc m) cs0
                       else cs0[m := c'])"
    using ih m by (simp add: upd_conv_take_nth_drop)
  finally have children: "concat (map ?g cs0)
      = (if became_empty (cs0 ! m) c' then take m cs0 @ drop (Suc m) cs0 else cs0[m := c'])" .
  have "remove_child lane ?x (ParentContainer i s0 a0 n0 cs0)
      = ParentContainer i s0 a0 n0 (concat (map ?g cs0))"
    using il by simp
  also have "\<dots> = erase_cascading ((m # q') @ [k]) (ParentContainer i s0 a0 n0 cs0)"
    using children m by (simp add: c'_def)
  finally show ?case .
qed

lemma num_nodes_update_at_Cons: "num_nodes (update_at (j # p) f c) = num_nodes c"
  by (cases c) simp_all

lemma erase_cascading_plain:
  "node_at c q = Some (ParentContainer i s a n cs) \<Longrightarrow> k < length cs
     \<Longrightarrow> q = [] \<or> length cs \<noteq> 1
     \<Longrightarrow> erase_cascading (q @ [k]) c = update_at q (drop_child k) c"
proof (induction c q rule: node_at.induct)
  case (1 c)
  then show ?case by simp
next
  case (2 i' a' n' k' p)
  then show ?case by simp
next
  case (3 i0 s0 a0 n0 cs0 m q')
  from "3.prems"(1) have m: "m < length cs0"
    and at: "node_at (cs0 ! m) q' = Some (ParentContainer i s a n cs)"
    by (auto split: if_splits)
  from "3.prems"(3) have len: "length cs \<noteq> 1" by simp
  have ih: "erase_cascading (q' @ [k]) (cs0 ! m) = update_at q' (drop_child k) (cs0 ! m)"
    using "3.IH" m at "3.prems"(2) len by simp
  have "num_nodes (update_at q' (drop_child k) (cs0 ! m)) \<noteq> 0"
  proof (cases q')
    case Nil
    with at "3.prems"(2) len show ?thesis by auto
  next
    case (Cons j p)
    have "node_at (cs0 ! m) (j # p @ [k]) = Some (cs ! k)"
      using at "3.prems"(2) Cons node_at_append [of "cs0 ! m" q' "[k]"] by simp
    then have "num_nodes (cs0 ! m) \<noteq> 0" using node_at_Cons_nonempty by blast
    with Cons show ?thesis by (simp add: num_nodes_update_at_Cons)
  qed
  then have "\<not> became_empty (cs0 ! m) (update_at q' (drop_child k) (cs0 ! m))"
    by (simp add: became_empty_def)
  with ih m show ?case by simp
qed

lemma get_parent_of_path:
  "find_path root x = Some (q @ [k]) \<Longrightarrow> get_parent root x = node_at root q"
  by (cases q) (simp_all add: get_parent_def)

lemma handle_remove_by_path:
  assumes dist: "distinct (idents (root_lane t))"
    and path: "find_path (root_lane t) node = Some (q @ [k])"
    and par: "node_at (root_lane t) q = Some parent"
  shows "\<not> (num_nodes parent = 1 \<and> q \<noteq> []) \<Longrightarrow>
           handle_remove node t
             = (Some (ident parent), t\<lparr>root_lane := update_at q (drop_child k) (root_lane t)\<rparr>)"
    and "num_nodes parent = 1 \<Longrightarrow> q = q' @ [k'] \<Longrightarrow> node_at (root_lane t) q' = Some grandparent
           \<Longrightarrow> handle_remove node t
                 = (Some (ident grandparent), t\<lparr>root_lane := erase_cascading q (root_lane t)\<rparr>)
               \<and> (q' = [] \<or> num_nodes grandparent \<noteq> 1 \<longrightarrow>
                    erase_cascading q (root_lane t)
                      = update_at q' (drop_child k') (root_lane t))"
proof -
  let ?root = "root_lane t"
  obtain cn where cn: "node_at ?root (q @ [k]) = Some cn" "ident cn = node"
    using find_path_node_at [OF path] by blast
  obtain pid s a n cs where pshape: "parent = ParentContainer pid s a n cs"
    and k: "k < length cs" and ck: "cs ! k = cn"
    using node_at_snoc_Some [OF cn(1)] par by auto
  have gp: "get_parent ?root node = Some parent"
    using get_parent_of_path [OF path] par by simp
  have ppath: "find_path ?root (ident parent) = Some q"
    using dist par by (rule find_path_unique)
  have plain: "remove_child (ident parent) node ?root = update_at q (drop_child k) ?root"
    if "q = [] \<or> length cs \<noteq> 1"
  proof -
    have "remove_child pid (ident (cs ! k)) ?root = erase_cascading (q @ [k]) ?root"
      using dist par k unfolding pshape by (rule remove_child_path)
    also have "\<dots> = update_at q (drop_child k) ?root"
      using par k that unfolding pshape by (rule erase_cascading_plain)
    finally show ?thesis using ck cn(2) pshape by simp
  qed
  show "handle_remove node t
          = (Some (ident parent), t\<lparr>root_lane := update_at q (drop_child k) ?root\<rparr>)"
    if no: "\<not> (num_nodes parent = 1 \<and> q \<noteq> [])"
  proof (cases "q = []")
    case True
    then have "get_parent ?root (ident parent) = None"
      using ppath by (simp add: get_parent_def)
    with gp plain True show ?thesis by (simp add: handle_remove_def)
  next
    case False
    with no have len: "length cs \<noteq> 1" using pshape by simp
    from False have "q = butlast q @ [last q]" by simp
    then obtain gp' where "node_at ?root (butlast q) = Some gp'"
      using node_at_snoc_Some [of ?root "butlast q" "last q" parent] par by auto
    then have "get_parent ?root (ident parent) = Some gp'"
      using ppath False by (cases q) (simp_all add: get_parent_def)
    with gp plain len pshape show ?thesis by (simp add: handle_remove_def)
  qed
  show "handle_remove node t
          = (Some (ident grandparent), t\<lparr>root_lane := erase_cascading q ?root\<rparr>)
        \<and> (q' = [] \<or> num_nodes grandparent \<noteq> 1 \<longrightarrow>
             erase_cascading q ?root = update_at q' (drop_child k') ?root)"
    if one: "num_nodes parent = 1" and q: "q = q' @ [k']"
      and gpar: "node_at ?root q' = Some grandparent"
  proof -
    obtain gid gs ga gn gcs where gshape: "grandparent = ParentContainer gid gs ga gn gcs"
      and k': "k' < length gcs" and gk: "gcs ! k' = parent"
      using node_at_snoc_Some [of ?root q' k' parent] par q gpar by auto
    have ggp: "get_parent ?root (ident parent) = Some grandparent"
      using get_parent_of_path [of ?root "ident parent" q' k'] ppath q gpar by simp
    have "remove_child gid (ident (gcs ! k')) ?root = erase_cascading (q' @ [k']) ?root"
      using dist gpar k' unfolding gshape by (rule remove_child_path)
    then have rc: "remove_child (ident grandparent) (ident parent) ?root = erase_cascading q ?root"
      using gk gshape q by simp
    have res: "handle_remove node t
        = (Some (ident grandparent), t\<lparr>root_lane := erase_cascading q ?root\<rparr>)"
      using gp ggp one rc by (simp add: handle_remove_def)
    have "erase_cascading q ?root = update_at q' (drop_child k') ?root"
      if "q' = [] \<or> num_nodes grandparent \<noteq> 1"
    proof -
      from that have "q' = [] \<or> length gcs \<noteq> 1" using gshape by simp
      with gpar k' show ?thesis unfolding gshape q by (rule erase_cascading_plain)
    qed
    with res show ?thesis by blast
  qed
qed

text \<open>
  Claim C4. Let the tree hold pairwise different containers, let \<open>node\<close> be the child
  \<open>k\<close> of the lane \<open>parent\<close> at path \<open>q\<close>. After \<^verbatim>\<open>handle_remove\<close> the node is no longer in
  the tree. Unless \<open>parent\<close> is a lane below the root with this node as its only child, the
  call returns \<open>parent\<close> as the lane to commit and the tree is the one before with exactly
  the child \<open>k\<close> of \<open>parent\<close> taken out. When \<open>parent\<close> is below the root (child \<open>k'\<close> of
  \<open>grandparent\<close> at path \<open>q'\<close>) and the node is its only child, the call returns
  \<open>grandparent\<close> and \<open>parent\<close> is gone from the tree: the tree is the one before with the
  lane at \<open>q\<close> taken out, which is exactly the child \<open>k'\<close> of \<open>grandparent\<close> taken out
  whenever \<open>grandparent\<close> is the root or has another child; only when \<open>grandparent\<close> is
  itself a lane below the root holding nothing but \<open>parent\<close> does the cascade of
  \<^verbatim>\<open>ParentContainer::remove\<close> (not in the sources, modelled from the design document)
  take out \<open>grandparent\<close> and the lanes above it that are left empty. A node without a
  parent gives the null result and the tree as it was. If no lane other than the root is
  empty before the call, none is after it, and so after any sequence of such calls; this
  last part rests on that cascade.
\<close>

theorem handle_remove_no_empty_lane:
  assumes "no_empty_internal_lane (root_lane t)"
  shows "no_empty_internal_lane (root_lane (handle_remove_all nodes t))
       \<and> (get_parent (root_lane t) node = None \<longrightarrow> handle_remove node t = (None, t))
       \<and> (distinct (idents (root_lane t)) \<and> find_path (root_lane t) node = Some (q @ [k])
            \<and> node_at (root_lane t) q = Some parent \<longrightarrow>
            node \<notin> set (idents (root_lane (snd (handle_remove node t))))
            \<and> (\<not> (num_nodes parent = 1 \<and> q \<noteq> []) \<longrightarrow>
                 handle_remove node t
                   = (Some (ident parent),
                      t\<lparr>root_lane := update_at q (drop_child k) (root_lane t)\<rparr>))
            \<and> (num_nodes parent = 1 \<and> q = q' @ [k']
                 \<and> node_at (root_lane t) q' = Some grandparent \<longrightarrow>
                 handle_remove node t
                   = (Some (ident grandparent),
                      t\<lparr>root_lane := erase_cascading q (root_lane t)\<rparr>)
                 \<and> ident parent \<notin> set (idents (root_lane (snd (handle_remove node t))))
                 \<and> (q' = [] \<or> num_nodes grandparent \<noteq> 1 \<longrightarrow>
                      erase_cascading q (root_lane t)
                        = update_at q' (drop_child k') (root_lane t))))"
proof -
  have seq: "no_empty_internal_lane (root_lane (handle_remove_all nodes t))"
    using assms by (rule handle_remove_all_keeps_lanes)
  have orphan: "handle_remove node t = (None, t)" if "get_parent (root_lane t) node = None"
    using that by (simp add: handle_remove_def)
  have rest: "node \<notin> set (idents (root_lane (snd (handle_remove node t))))
            \<and> (\<not> (num_nodes parent = 1 \<and> q \<noteq> []) \<longrightarrow>
                 handle_remove node t
                   = (Some (ident parent),
                      t\<lparr>root_lane := update_at q (drop_child k) (root_lane t)\<rparr>))
            \<and> (num_nodes parent = 1 \<and> q = q' @ [k']
                 \<and> node_at (root_lane t) q' = Some grandparent \<longrightarrow>
                 handle_remove node t
                   = (Some (ident grandparent),
                      t\<lparr>root_lane := erase_cascading q (root_lane t)\<rparr>)
                 \<and> ident parent \<notin> set (idents (root_lane (snd (handle_remove node t))))
                 \<and> (q' = [] \<or> num_nodes grandparent \<noteq> 1 \<longrightarrow>
                      erase_cascading q (root_lane t)
                        = update_at q' (drop_child k') (root_lane t)))"
    if dist: "distinct (idents (root_lane t))"
      and path: "find_path (root_lane t) node = Some (q @ [k])"
      and par: "node_at (root_lane t) q = Some parent"
  proof -
    have gp: "get_parent (root_lane t) node = Some parent"
      using get_parent_of_path [OF path] par by simp
    have gone: "node \<notin> set (idents (root_lane (snd (handle_remove node t))))"
      using dist gp by (rule handle_remove_detaches_node(1))
    have lane_gone: "ident parent \<notin> set (idents (root_lane (snd (handle_remove node t))))"
      if "num_nodes parent = 1" "q = q' @ [k']" "node_at (root_lane t) q' = Some grandparent"
    proof -
      have "find_path (root_lane t) (ident parent) = Some (q' @ [k'])"
        using find_path_unique [OF dist par] that(2) by simp
      then have "get_parent (root_lane t) (ident parent) = Some grandparent"
        using get_parent_of_path that(3) by simp
      with handle_remove_detaches_node(2) [OF dist gp that(1)] show ?thesis by blast
    qed
    from gone lane_gone handle_remove_by_path(1) [OF dist path par]
      handle_remove_by_path(2) [OF dist path par, of q' k' grandparent]
    show ?thesis by blast
  qed
  from seq orphan rest show ?thesis by blast
qed

theorem handle_remove_no_empty_lane_witness:
  "no_empty_internal_lane (root_lane chain_tree)
   \<and> distinct (idents (root_lane chain_tree))
   \<and> find_path (root_lane chain_tree) 4 = Some ([1, 0] @ [0])
   \<and> node_at (root_lane chain_tree) [1, 0]
       = Some (ParentContainer 3 horizontal (rect 460 0 460 600) None
                 [LeafContainer 4 (rect 460 0 460 600) None])
   \<and> node_at (root_lane chain_tree) [1]
       = Some (ParentContainer 2 vertical (rect 460 0 460 600) None
                 [ParentContainer 3 horizontal (rect 460 0 460 600) None
                    [LeafContainer 4 (rect 460 0 460 600) None]])
   \<and> handle_remove 4 chain_tree
       = (Some 2, chain_tree\<lparr>root_lane := ParentContainer 0 horizontal (rect 0 0 920 600) None
                                            [LeafContainer 1 (rect 0 0 460 600) None]\<rparr>)
   \<and> erase_cascading [1, 0] chain_root
       = ParentContainer 0 horizontal (rect 0 0 920 600) None
           [LeafContainer 1 (rect 0 0 460 600) None]
   \<and> no_empty_internal_lane (root_lane (handle_remove_all [4, 1] chain_tree))
   \<and> get_parent (root_lane chain_tree) 0 = None
   \<and> handle_remove 0 chain_tree = (None, chain_tree)
   \<and> no_empty_internal_lane (root_lane nested_tree)
   \<and> distinct (idents (root_lane nested_tree))
   \<and> find_path (root_lane nested_tree) 4 = Some ([1] @ [1])
   \<and> node_at (root_lane nested_tree) [1]
       = Some (ParentContainer 2 vertical (rect 460 0 460 600) None
                 [LeafContainer 3 (rect 460 0 460 200) None,
                  LeafContainer 4 (rect 460 200 460 200) None,
                  LeafContainer 5 (rect 460 400 460 200) None])
   \<and> handle_remove 4 nested_tree
       = (Some 2, nested_tree\<lparr>root_lane := ParentContainer 0 horizontal (rect 0 0 920 600) None
           [LeafContainer 1 (rect 0 0 460 600) None,
            ParentContainer 2 vertical (rect 460 0 460 600) None
              [LeafContainer 3 (rect 460 0 460 200) None,
               LeafContainer 5 (rect 460 400 460 200) None]]\<rparr>)
   \<and> no_empty_internal_lane (root_lane pair_tree)
   \<and> distinct (idents (root_lane pair_tree))
   \<and> find_path (root_lane pair_tree) 3 = Some ([1] @ [0])
   \<and> node_at (root_lane pair_tree) [1]
       = Some (ParentContainer 2 vertical (rect 460 0 460 600) None
                 [LeafContainer 3 (rect 460 0 460 600) None])
   \<and> node_at (root_lane pair_tree) [] = Some pair_root
   \<and> handle_remove 3 pair_tree
       = (Some 0, pair_tree\<lparr>root_lane := ParentContainer 0 horizontal (rect 0 0 920 600) None
                                           [LeafContainer 1 (rect 0 0 460 600) None]\<rparr>)
   \<and> update_at [] (drop_child 1) pair_root
       = ParentContainer 0 horizontal (rect 0 0 920 600) None
           [LeafContainer 1 (rect 0 0 460 600) None]"
  using handle_remove_no_empty_lane [where t = chain_tree and nodes = "[4, 1]" and node = 4
      and q = "[1, 0]" and k = 0 and q' = "[1]" and k' = 0
      and parent = "ParentContainer 3 horizontal (rect 460 0 460 600) None
         [LeafContainer 4 (rect 460 0 460 600) None]"
      and grandparent = "ParentContainer 2 vertical (rect 460 0 460 600) None
         [ParentContainer 3 horizontal (rect 460 0 460 600) None
            [LeafContainer 4 (rect 460 0 460 600) None]]"]
    handle_remove_no_empty_lane [where t = chain_tree and nodes = "[]" and node = 0]
    handle_remove_no_empty_lane [where t = nested_tree and nodes = "[]" and node = 4
      and q = "[1]" and k = 1
      and parent = "ParentContainer 2 vertical (rect 460 0 460 600) None
          [LeafContainer 3 (rect 460 0 460 200) None,
           LeafContainer 4 (rect 460 200 460 200) None,
           LeafContainer 5 (rect 460 400 460 200) None]"]
    handle_remove_no_empty_lane [where t = pair_tree and nodes = "[]" and node = 3
      and q = "[1]" and k = 0 and q' = "[]" and k' = 1
      and parent = "ParentContainer 2 vertical (rect 460 0 460 600) None
          [LeafContainer 3 (rect 460 0 460 600) None]"
      and grandparent = pair_root]
  by (simp add: chain_tree_def chain_root_def nested_tree_def nested_root_def pair_tree_def
      pair_root_def no_empty_internal_lane_def handle_remove_def get_parent_def
      became_empty_def)

subsection \<open>Move\<close>

text \<open>
  Claim C5 as stated fails in its last part: in a root that is already horizontal,
  \<^verbatim>\<open>move_container(right)\<close> on the sole child does not wrap the root.
  \<^verbatim>\<open>handle_move\<close> finds the scheme of the direction equal to the scheme of the root
  and returns the invalid result; \<^verbatim>\<open>move_container\<close> logs an error and returns false,
  and the tree is as before.
\<close>

theorem move_right_in_horizontal_root:
  "move_container example_env right 1 single_tree
     = Some (False, single_tree\<lparr>events := [log_error ''Unable to move window'']\<rparr>)"
  by (simp add: move_container_def handle_move_def handle_select_def select_loop.simps
      single_tree_def single_root_def get_parent_def is_vertical_direction_def
      is_negative_direction_def add_event_def Let_def)

lemma foldr_max_ge: "x \<in> set xs \<Longrightarrow> x \<le> foldr max xs (0::nat)"
  by (induction xs) auto

lemma fresh_ident_gt: "x \<in> set (idents c) \<Longrightarrow> x < fresh_ident c"
  using foldr_max_ge [of x "idents c"] by (simp add: fresh_ident_def)


lemma find_path_child:
  assumes "find_path (ParentContainer r s a n cs) c = Some [i]"
  shows "i < length cs \<and> ident (cs ! i) = c \<and> c \<noteq> r"
proof -
  obtain c' where "node_at (ParentContainer r s a n cs) [i] = Some c'" "ident c' = c"
    using find_path_node_at [OF assms] by blast
  moreover have "c \<noteq> r" using assms by (auto split: if_splits)
  ultimately show ?thesis by (auto split: if_splits)
qed

lemma handle_move_wraps:
  assumes root: "root_lane t = ParentContainer r s a n cs"
    and path: "find_path (root_lane t) c = Some [i]"
    and sel: "fst (handle_select t c d) = nullptr"
    and axis: "from_direction d \<noteq> s"
  shows "handle_move env c d t =
           Some ((if is_negative_direction d then traversal_type_prepend else traversal_type_append,
                  Some (fresh_ident (root_lane t))),
                 t\<lparr>root_lane := ParentContainer (fresh_ident (root_lane t)) (from_direction d)
                                  (wrapped_area env (root_lane t)) None [root_lane t],
                   events := events t @ wrapped_events env (root_lane t)\<rparr>)"
proof -
  have hs: "handle_select t c d = (nullptr, t)"
    using sel path by (simp add: handle_select_def)
  have gp: "get_parent (root_lane t) c = Some (root_lane t)"
    using path by (simp add: get_parent_def)
  show ?thesis
    using hs gp axis root
    by (cases "zones env")
      (simp_all add: handle_move_def Let_def recalculate_root_node_area_def wrapped_area_def
        wrapped_events_def)
qed


lemma handle_remove_in_wrapped:
  assumes root: "R = ParentContainer r s a n cs"
    and path: "find_path R c = Some [i]"
    and f: "f = fresh_ident R"
    and t2: "root_lane t2 = ParentContainer f nd A None [R]"
  shows "root_lane (snd (handle_remove c t2)) = ParentContainer f nd A None (remaining_root c R)"
proof -
  have ch: "i < length cs" "ident (cs ! i) = c" "c \<noteq> r"
    using find_path_child [of r s a n cs c i] path root by auto
  have "r \<in> set (idents R)" using root by simp
  then have fr: "r \<noteq> f" using fresh_ident_gt [of r R] f by auto
  have "c \<in> set (idents R)" using path by (rule find_path_idents)
  then have fc: "c \<noteq> f" using fresh_ident_gt [of c R] f by auto
  have gpc: "get_parent (root_lane t2) c = Some R"
    using t2 path fc root by (simp add: get_parent_def)
  have gpr: "get_parent (root_lane t2) (ident R) = Some (root_lane t2)"
    using t2 fr root by (simp add: get_parent_def)
  show ?thesis
  proof (cases "length cs = 1")
    case True
    then obtain c0 where cs: "cs = [c0]" by (cases cs) auto
    with ch have "ident c0 = c" by simp
    with cs root have rem: "remaining_root c R = []" by (simp add: remaining_root_def)
    have "handle_remove c t2
        = (Some f, t2\<lparr>root_lane := remove_child f r (root_lane t2)\<rparr>)"
      using gpc gpr True root t2 by (simp add: handle_remove_def)
    then show ?thesis using t2 rem root by simp
  next
    case False
    have ne: "cs \<noteq> []" using ch by auto
    have "handle_remove c t2
        = (Some r, t2\<lparr>root_lane := remove_child r c (root_lane t2)\<rparr>)"
      using gpc gpr False root t2 by (simp add: handle_remove_def)
    then show ?thesis
      using t2 root fr ne by (auto simp: remaining_root_def became_empty_def)
  qed
qed

lemma node_of_top: "node_of c (ident c) = Some c"
  by (cases c) (simp_all add: node_of_def)

lemma move_at_root_general:
  assumes nf: "\<not> is_active_window_fullscreen t"
    and root: "root_lane t = ParentContainer r s a n cs"
    and path: "find_path (root_lane t) c = Some [i]"
    and axis: "from_direction d \<noteq> s"
  shows "(fst (handle_select t c d) = nullptr \<longrightarrow>
          (\<exists>t'. move_container env d c t = Some (True, t')
             \<and> root_lane t' =
                 ParentContainer (fresh_ident (root_lane t)) (from_direction d)
                   (wrapped_area env (root_lane t)) None
                   (if is_negative_direction d
                    then cs ! i # remaining_root c (root_lane t)
                    else remaining_root c (root_lane t) @ [cs ! i])))"
proof
  assume sel: "fst (handle_select t c d) = nullptr"
  let ?R = "root_lane t"
  let ?f = "fresh_ident ?R"
  let ?W = "ParentContainer ?f (from_direction d) (wrapped_area env ?R) None [?R]"
  let ?t2 = "t\<lparr>root_lane := ?W, events := events t @ wrapped_events env ?R\<rparr>"
  have hm: "handle_move env c d t =
           Some ((if is_negative_direction d then traversal_type_prepend else traversal_type_append,
                  Some ?f), ?t2)"
    using root path sel axis by (rule handle_move_wraps)
  have ch: "i < length cs" "ident (cs ! i) = c" "c \<noteq> r"
    using find_path_child [of r s a n cs c i] path root by auto
  have "c \<in> set (idents ?R)" using path by (rule find_path_idents)
  then have fc: "c \<noteq> ?f" using fresh_ident_gt [of c ?R] by auto
  have moving: "node_of (root_lane ?t2) c = Some (cs ! i)"
    using path fc root ch by (simp add: node_of_def)
  have rem: "root_lane (snd (handle_remove c ?t2))
      = ParentContainer ?f (from_direction d) (wrapped_area env ?R) None (remaining_root c ?R)"
    using root path by (intro handle_remove_in_wrapped [where i = i and r = r and s = s
          and a = a and n = n and cs = cs]) simp_all
  obtain x t3 where hr: "handle_remove c ?t2 = (x, t3)" by (cases "handle_remove c ?t2")
  with rem have t3: "root_lane t3
      = ParentContainer ?f (from_direction d) (wrapped_area env ?R) None (remaining_root c ?R)"
    by simp
  have lane: "node_of (root_lane t3) ?f = Some (root_lane t3)"
    using t3 node_of_top [of "root_lane t3"] by simp
  show "\<exists>t'. move_container env d c t = Some (True, t')
             \<and> root_lane t' =
                 ParentContainer ?f (from_direction d) (wrapped_area env ?R) None
                   (if is_negative_direction d
                    then cs ! i # remaining_root c ?R
                    else remaining_root c ?R @ [cs ! i])"
    using nf hm moving hr t3 lane
    by (auto simp: move_container_def commit_node_def)
qed


lemma sole_child_select_nullptr:
  assumes "root_lane t = ParentContainer r s a n [l]"
    and "find_path (root_lane t) c = Some [i]"
  shows "fst (handle_select t c d) = nullptr"
proof -
  have "i = 0" using find_path_child [of r s a n "[l]" c i] assms by simp
  then show ?thesis
    using assms
    by (simp add: handle_select_def select_loop.simps [of _ "[0]"] select_loop.simps [of _ "[]"]
        Let_def)
qed

lemma sole_child_no_neighbors:
  "\<not> get_neighbors (ParentContainer r s a n [l]) [0] d"
  by (cases d)
    (simp_all add: has_top_neighbor_def has_left_neighbor_def has_bottom_neighbor_def
      has_right_neighbor_def has_neighbor.simps [of _ "[0]"] has_neighbor.simps [of _ "[]"])

lemma sole_child_visible_area:
  "get_visible_area env (ParentContainer r s a n [l]) [0] =
     \<lparr>top_left_x = top_left_x (logical_area l) + border_size env,
      top_left_y = top_left_y (logical_area l) + border_size env,
      size_width = size_width (logical_area l) - 2 * border_size env,
      size_height = size_height (logical_area l) - 2 * border_size env\<rparr>"
  using sole_child_no_neighbors [of r s a n l up] sole_child_no_neighbors [of r s a n l left]
    sole_child_no_neighbors [of r s a n l down] sole_child_no_neighbors [of r s a n l right]
  by (simp add: get_visible_area_def Let_def)

lemma move_at_root_same_scheme:
  assumes nf: "\<not> is_active_window_fullscreen t"
    and root: "root_lane t = ParentContainer r s a n cs"
    and path: "find_path (root_lane t) c = Some [i]"
    and sel: "fst (handle_select t c d) = nullptr"
    and same: "from_direction d = s"
  shows "move_container env d c t =
           Some (False, t\<lparr>events := events t @ [log_error ''Unable to move window'']\<rparr>)"
proof -
  have hs: "handle_select t c d = (nullptr, t)"
    using sel path by (simp add: handle_select_def)
  have gp: "get_parent (root_lane t) c = Some (root_lane t)"
    using path by (simp add: get_parent_def)
  have "handle_move env c d t = Some ((traversal_type_invalid, None), t)"
    using hs gp same root by (simp add: handle_move_def Let_def)
  then show ?thesis using nf by (simp add: move_container_def add_event_def)
qed

text \<open>
  Claim C5, amended. Let the moving container be a child of the root and let
  \<^verbatim>\<open>handle_select\<close> find no target. If the scheme that \<^verbatim>\<open>from_direction\<close> gives
  for the direction differs from the scheme of the root, \<^verbatim>\<open>move_container\<close> returns
  true and leaves a brand-new root with the scheme of the direction and the recomputed
  geometry; below it are the old root without the moved container (dropped when nothing
  remains in it) and the moved container, which is last for right and down and first for
  left and up. If the two schemes are equal, \<^verbatim>\<open>move_container\<close> returns false and
  nothing but the log has changed. In particular, \<^verbatim>\<open>move_container(right)\<close> on the
  sole child of a root that is not horizontal leaves a new horizontal root with that child
  as its only child, and the visible area of the child is what it was.
\<close>

theorem move_at_root_wraps:
  assumes nf: "\<not> is_active_window_fullscreen t"
    and root: "root_lane t = ParentContainer r s a n cs"
    and path: "find_path (root_lane t) c = Some [i]"
  shows "(from_direction d \<noteq> s \<and> fst (handle_select t c d) = nullptr \<longrightarrow>
          (\<exists>t'. move_container env d c t = Some (True, t')
             \<and> root_lane t' =
                 ParentContainer (fresh_ident (root_lane t)) (from_direction d)
                   (wrapped_area env (root_lane t)) None
                   (if is_negative_direction d
                    then cs ! i # remaining_root c (root_lane t)
                    else remaining_root c (root_lane t) @ [cs ! i])))
       \<and> (from_direction d = s \<and> fst (handle_select t c d) = nullptr \<longrightarrow>
          move_container env d c t =
            Some (False, t\<lparr>events := events t @ [log_error ''Unable to move window'']\<rparr>))
       \<and> (from_direction d \<noteq> s \<and> cs = [l] \<and> d = right \<longrightarrow>
          (\<exists>t'. move_container env d c t = Some (True, t')
             \<and> root_lane t' =
                 ParentContainer (fresh_ident (root_lane t)) horizontal
                   (wrapped_area env (root_lane t)) None [l]
             \<and> get_visible_area env (root_lane t') [0]
                 = get_visible_area env (root_lane t) [0]))"
proof (intro conjI impI)
  assume "from_direction d \<noteq> s \<and> fst (handle_select t c d) = nullptr"
  then have axis: "from_direction d \<noteq> s" and "fst (handle_select t c d) = nullptr"
    by simp_all
  with move_at_root_general [OF nf root path axis, of env]
  show "\<exists>t'. move_container env d c t = Some (True, t')
             \<and> root_lane t' =
                 ParentContainer (fresh_ident (root_lane t)) (from_direction d)
                   (wrapped_area env (root_lane t)) None
                   (if is_negative_direction d
                    then cs ! i # remaining_root c (root_lane t)
                    else remaining_root c (root_lane t) @ [cs ! i])"
    by blast
next
  assume "from_direction d = s \<and> fst (handle_select t c d) = nullptr"
  then have "fst (handle_select t c d) = nullptr" and "from_direction d = s" by simp_all
  with nf root path
  show "move_container env d c t =
          Some (False, t\<lparr>events := events t @ [log_error ''Unable to move window'']\<rparr>)"
    by (rule move_at_root_same_scheme)
next
  assume sole: "from_direction d \<noteq> s \<and> cs = [l] \<and> d = right"
  then have axis: "from_direction d \<noteq> s" by blast
  from sole have root1: "root_lane t = ParentContainer r s a n [l]" using root by simp
  have sel: "fst (handle_select t c d) = nullptr"
    using root1 path by (rule sole_child_select_nullptr)
  have ch: "i = 0" "ident l = c"
    using find_path_child [of r s a n "[l]" c i] path root1 by auto
  have rem: "remaining_root c (root_lane t) = []"
    using root1 ch by (simp add: remaining_root_def)
  from move_at_root_general [OF nf root path axis, of env] sel
  obtain t' where t': "move_container env d c t = Some (True, t')"
    "root_lane t' = ParentContainer (fresh_ident (root_lane t)) (from_direction d)
                   (wrapped_area env (root_lane t)) None
                   (if is_negative_direction d
                    then cs ! i # remaining_root c (root_lane t)
                    else remaining_root c (root_lane t) @ [cs ! i])"
    by blast
  have shape: "root_lane t' = ParentContainer (fresh_ident (root_lane t)) horizontal
                   (wrapped_area env (root_lane t)) None [l]"
    using t'(2) sole rem ch by (simp add: is_negative_direction_def)
  have "get_visible_area env (root_lane t') [0] = get_visible_area env (root_lane t) [0]"
    unfolding shape root1 by (simp only: sole_child_visible_area)
  with t'(1) shape
  show "\<exists>t'. move_container env d c t = Some (True, t')
             \<and> root_lane t' =
                 ParentContainer (fresh_ident (root_lane t)) horizontal
                   (wrapped_area env (root_lane t)) None [l]
             \<and> get_visible_area env (root_lane t') [0]
                 = get_visible_area env (root_lane t) [0]"
    by blast
qed

theorem move_at_root_wraps_witness:
  "\<not> is_active_window_fullscreen single_vertical_tree
   \<and> root_lane single_vertical_tree
       = ParentContainer 0 vertical (rect 0 0 920 600) None [LeafContainer 1 (rect 0 0 920 600) None]
   \<and> find_path (root_lane single_vertical_tree) 1 = Some [0]
   \<and> from_direction right \<noteq> vertical
   \<and> fst (handle_select single_vertical_tree 1 right) = nullptr
   \<and> (\<exists>t'. move_container example_env right 1 single_vertical_tree = Some (True, t')
         \<and> root_lane t' = ParentContainer 2 horizontal (rect 0 0 920 600) None
                             [LeafContainer 1 (rect 0 0 920 600) None]
         \<and> get_visible_area example_env (root_lane t') [0]
             = get_visible_area example_env (root_lane single_vertical_tree) [0])
   \<and> \<not> is_active_window_fullscreen single_tree
   \<and> find_path (root_lane single_tree) 1 = Some [0]
   \<and> from_direction left = horizontal
   \<and> fst (handle_select single_tree 1 left) = nullptr
   \<and> move_container example_env left 1 single_tree
       = Some (False, single_tree\<lparr>events := [log_error ''Unable to move window'']\<rparr>)"
  using move_at_root_wraps [of single_vertical_tree 0 vertical "rect 0 0 920 600" None
      "[LeafContainer 1 (rect 0 0 920 600) None]" 1 0 right example_env
      "LeafContainer 1 (rect 0 0 920 600) None"]
    move_at_root_wraps [of single_tree 0 horizontal "rect 0 0 920 600" None
      "[LeafContainer 1 (rect 0 0 920 600) None]" 1 0 left example_env
      "LeafContainer 1 (rect 0 0 920 600) None"]
  by (auto simp: single_vertical_tree_def single_vertical_root_def single_tree_def
      single_root_def handle_select_def
      select_loop.simps is_vertical_direction_def is_negative_direction_def fresh_ident_def
      wrapped_area_def example_env_def)

end
